theory Spec2Isabelle
  imports Main
begin

section \<open>Strings\<close>

text \<open>
  A JavaScript string is modelled as a \<^typ>\<open>string\<close>; every \<^typ>\<open>char\<close> stands for one
  code unit of the source string.
\<close>

definition startsWith :: "string \<Rightarrow> string \<Rightarrow> bool" where
  "startsWith s p = (take (length p) s = p)"

fun js_includes :: "string \<Rightarrow> string \<Rightarrow> bool" where
  "js_includes [] sub = (sub = [])"
| "js_includes (c # cs) sub = (startsWith (c # cs) sub \<or> js_includes cs sub)"

text \<open>
  The white space \<open>String.prototype.trim\<close> removes, among the code units a \<^typ>\<open>char\<close> can
  hold (0 to 255): tab, line feed, vertical tab, form feed, carriage return, space and the
  no-break space U+00A0.
\<close>

definition is_space :: "char \<Rightarrow> bool" where
  "is_space c =
     (c \<in> set [CHR '' '', CHR 0x09, CHR 0x0A, CHR 0x0B, CHR 0x0C, CHR 0x0D, CHR 0xA0])"

definition trim :: "string \<Rightarrow> string" where
  "trim s = rev (dropWhile is_space (rev (dropWhile is_space s)))"

text \<open>
  \<open>String.prototype.toLowerCase\<close> on the code units 0 to 255: the letters \<open>A\<close> to \<open>Z\<close> and
  the letters U+00C0 to U+00DE, without the multiplication sign U+00D7, move up by 32.
\<close>

definition toLowerCase_char :: "char \<Rightarrow> char" where
  "toLowerCase_char c =
     (let n = (of_char c :: nat)
      in if (65 \<le> n \<and> n \<le> 90) \<or> (192 \<le> n \<and> n \<le> 222 \<and> n \<noteq> 215)
         then char_of (n + 32) else c)"

definition toLowerCase :: "string \<Rightarrow> string" where
  "toLowerCase s = map toLowerCase_char s"

fun string_of_nat :: "nat \<Rightarrow> string" where
  "string_of_nat n =
     (if n < 10 then [''0123456789'' ! n]
      else string_of_nat (n div 10) @ [''0123456789'' ! (n mod 10)])"

declare string_of_nat.simps [simp del]

section \<open>Photo storage: \<open>src/lib/photoStorage.ts\<close>\<close>

subsection \<open>Storage keys\<close>

text \<open>The character class \<open>[a-zA-Z0-9.-]\<close> of the regular expression in \<open>generateFileName\<close>.\<close>

definition in_name_class :: "char \<Rightarrow> bool" where
  "in_name_class c =
     (let n = (of_char c :: nat) in
        (97 \<le> n \<and> n \<le> 122) \<or> (65 \<le> n \<and> n \<le> 90) \<or> (48 \<le> n \<and> n \<le> 57)
        \<or> c = CHR ''.'' \<or> c = CHR ''-'')"

text \<open>\<open>originalName.replace(/[^a-zA-Z0-9.-]/g, '_')\<close>\<close>

definition cleanName :: "string \<Rightarrow> string" where
  "cleanName originalName = map (\<lambda>c. if in_name_class c then c else CHR ''_'') originalName"

text \<open>
  \<open>generateFileName\<close>; the first argument is the value \<open>Date.now()\<close> returns. The source also
  computes an \<open>extension\<close> that it never uses.
\<close>

definition generateFileName :: "nat \<Rightarrow> string \<Rightarrow> string \<Rightarrow> string \<Rightarrow> string" where
  "generateFileName timestamp organizationId userId originalName =
     organizationId @ ''/'' @ userId @ ''/'' @ string_of_nat timestamp @ ''_'' @ cleanName originalName"

text \<open>The sanitisation the specification describes: characters outside the class are removed.\<close>

definition strip_name :: "string \<Rightarrow> string" where
  "strip_name originalName = filter in_name_class originalName"

subsection \<open>The backend: tables, bucket, and the faults of its calls\<close>

record api_error =
  code :: string
  message :: string

text \<open>
  The database, the object store and the identity provider are the collaborators of the
  client; their calls are modelled after what the client does with their answers. Every
  call to the database or the object store consumes one \<open>fault\<close> of a script held in the state:
  \<open>NoFault\<close> answers the call, \<open>ErrorValue\<close> answers it with an \<open>{ data: null, error }\<close> value
  and leaves the backend as it is, \<open>Throws\<close> rejects the promise, leaving the backend as it is,
  \<open>LostAnswer\<close> carries the call out on the backend and loses the answer, so that the
  promise rejects although the call has taken effect, and \<open>Late\<close> answers the call, but only
  after any timer it is raced against has fired. An exhausted script answers every call.
\<close>

datatype fault = NoFault | ErrorValue api_error | Throws string | LostAnswer string | Late

record photo_row =
  photo_id :: nat
  takenbyuserId :: string
  imageurl :: string
  created_at :: nat

record user_row =
  row_id :: string
  row_name :: string
  row_email :: string
  row_organization_id :: string
  row_role :: "string option"

record org_row =
  org_id :: string
  org_name :: string
  join_code :: string

text \<open>The identity the identity provider hands out, with the two metadata fields the code reads.\<close>

record User =
  user_id :: string
  user_email :: "string option"
  metadata_full_name :: "string option"
  metadata_name :: "string option"

record Session =
  access_token :: string
  expires_at :: "nat option"
  session_user :: User

text \<open>A promise, seen from the timer it is raced against: \<open>Pending\<close> has not settled when the
  timer fires.\<close>

datatype 'a settled = Fulfilled 'a | Rejected api_error | Pending

text \<open>What \<open>supabase.auth.getUser()\<close> and \<open>supabase.auth.getSession()\<close> resolve to:
  \<open>{ data: { user }, error }\<close> and \<open>{ data: { session }, error }\<close>.\<close>

record user_reply =
  reply_user :: "User option"
  user_reply_error :: "api_error option"

record session_reply =
  reply_session :: "Session option"
  session_reply_error :: "api_error option"

text \<open>
  The calls that leave the client, in order. \<open>GetSession\<close> carries the name of the caller.
\<close>

datatype event =
    SelectPhotoIds string
  | StorageUpload string
  | InsertPhoto string string
  | StorageRemove string
  | Sleep nat
  | GetUser
  | GetSession string
  | SelectUserProfile string
  | SelectUserIdOrg string
  | SelectOrg string
  | SelectUserId string
  | InsertUser user_row
  | ReplaceState string
  | Navigate string
  | NavigateAfter nat string

text \<open>
  The state outside the client: the tables, the bucket, the clock \<open>Date.now()\<close> reads, the fault
  script of the database and storage calls, and what the identity provider will answer to the
  successive \<open>getUser\<close> and \<open>getSession\<close> calls (an exhausted script does not answer).
\<close>

record backend =
  photos :: "photo_row list"
  objects :: "string list"
  users :: "user_row list"
  organizations :: "org_row list"
  publicUrl :: "string \<Rightarrow> string"
  now :: nat
  faults :: "fault list"
  getUser_replies :: "user_reply settled list"
  getSession_replies :: "session_reply settled list"
  calls :: "event list"

definition next_fault :: "'a backend_scheme \<Rightarrow> fault \<times> 'a backend_scheme" where
  "next_fault w = (case faults w of [] \<Rightarrow> (NoFault, w) | f # fs \<Rightarrow> (f, w\<lparr>faults := fs\<rparr>))"

definition record_call :: "event \<Rightarrow> 'a backend_scheme \<Rightarrow> 'a backend_scheme" where
  "record_call e w = w\<lparr>calls := calls w @ [e]\<rparr>"

text \<open>\<open>await new Promise(resolve => setTimeout(resolve, delay))\<close>\<close>

definition sleep :: "nat \<Rightarrow> 'a backend_scheme \<Rightarrow> 'a backend_scheme" where
  "sleep delay w = record_call (Sleep delay) (w\<lparr>now := now w + delay\<rparr>)"

record 'a response =
  data :: "'a option"
  error :: "api_error option"

definition answer :: "'a \<Rightarrow> 'a response" where
  "answer x = \<lparr>data = Some x, error = None\<rparr>"

definition refuse :: "api_error \<Rightarrow> 'a response" where
  "refuse e = \<lparr>data = None, error = Some e\<rparr>"

text \<open>\<open>supabase.from('photos').select('id').eq('takenbyuserId', userId).limit(10)\<close>\<close>

definition select_photo_ids ::
  "string \<Rightarrow> 'a backend_scheme \<Rightarrow> (string + nat list response) \<times> 'a backend_scheme" where
  "select_photo_ids userId w =
     (case next_fault (record_call (SelectPhotoIds userId) w) of
        (Throws e, w') \<Rightarrow> (Inl e, w')
      | (LostAnswer e, w') \<Rightarrow> (Inl e, w')
      | (ErrorValue e, w') \<Rightarrow> (Inr (refuse e), w')
      | (_, w') \<Rightarrow>
          (Inr (answer (take 10 (map photo_id
                  (filter (\<lambda>p. takenbyuserId p = userId) (photos w'))))), w'))"

text \<open>
  \<open>supabase.storage.from(STORAGE_BUCKET).upload(fileName, file, { upsert: false })\<close>: a key
  that is already in the bucket is refused.
\<close>

definition storage_upload ::
  "string \<Rightarrow> 'a backend_scheme \<Rightarrow> (string + string response) \<times> 'a backend_scheme" where
  "storage_upload fileName w =
     (case next_fault (record_call (StorageUpload fileName) w) of
        (Throws e, w') \<Rightarrow> (Inl e, w')
      | (LostAnswer e, w') \<Rightarrow>
          (Inl e, if fileName \<in> set (objects w') then w'
                  else w'\<lparr>objects := objects w' @ [fileName]\<rparr>)
      | (ErrorValue e, w') \<Rightarrow> (Inr (refuse e), w')
      | (_, w') \<Rightarrow>
          (if fileName \<in> set (objects w')
           then (Inr (refuse \<lparr>code = ''409'', message = ''The resource already exists''\<rparr>), w')
           else (Inr (answer fileName), w'\<lparr>objects := objects w' @ [fileName]\<rparr>)))"

definition fresh_photo_id :: "'a backend_scheme \<Rightarrow> nat" where
  "fresh_photo_id w = Suc (fold max (map photo_id (photos w)) 0)"

definition new_photo_row :: "string \<Rightarrow> string \<Rightarrow> 'a backend_scheme \<Rightarrow> photo_row" where
  "new_photo_row userId url w =
     \<lparr>photo_id = fresh_photo_id w, takenbyuserId = userId, imageurl = url, created_at = now w\<rparr>"

text \<open>
  \<open>supabase.from('photos').insert([{ takenbyuserId, imageurl }]).select().single()\<close>. With
  \<open>LostAnswer\<close> the row is in the table and the promise rejects.
\<close>

definition insert_photo ::
  "string \<Rightarrow> string \<Rightarrow> 'a backend_scheme \<Rightarrow> (string + photo_row response) \<times> 'a backend_scheme" where
  "insert_photo userId url w =
     (case next_fault (record_call (InsertPhoto userId url) w) of
        (Throws e, w') \<Rightarrow> (Inl e, w')
      | (LostAnswer e, w') \<Rightarrow>
          (Inl e, w'\<lparr>photos := photos w' @ [new_photo_row userId url w']\<rparr>)
      | (ErrorValue e, w') \<Rightarrow> (Inr (refuse e), w')
      | (_, w') \<Rightarrow>
          (let row = new_photo_row userId url w'
           in (Inr (answer row), w'\<lparr>photos := photos w' @ [row]\<rparr>)))"

text \<open>\<open>supabase.storage.from(STORAGE_BUCKET).remove([fileName])\<close>\<close>

definition storage_remove ::
  "string \<Rightarrow> 'a backend_scheme \<Rightarrow> (string + unit response) \<times> 'a backend_scheme" where
  "storage_remove fileName w =
     (case next_fault (record_call (StorageRemove fileName) w) of
        (Throws e, w') \<Rightarrow> (Inl e, w')
      | (LostAnswer e, w') \<Rightarrow> (Inl e, w'\<lparr>objects := removeAll fileName (objects w')\<rparr>)
      | (ErrorValue e, w') \<Rightarrow> (Inr (refuse e), w')
      | (_, w') \<Rightarrow> (Inr (answer ()), w'\<lparr>objects := removeAll fileName (objects w')\<rparr>))"

subsection \<open>\<open>withRetry\<close>\<close>

text \<open>
  The loop \<open>for (let attempt = 1; attempt <= maxRetries; attempt++)\<close>. An operation that
  throws is retried; \<open>lastError\<close> starts as \<open>null\<close> (\<open>None\<close>) and is thrown when the loop ends.
\<close>

function withRetry_loop ::
  "('w backend_scheme \<Rightarrow> (string + 'a) \<times> 'w backend_scheme) \<Rightarrow> nat \<Rightarrow> nat \<Rightarrow> string option
     \<Rightarrow> 'w backend_scheme \<Rightarrow> (string option + 'a) \<times> 'w backend_scheme" where
  "withRetry_loop operation maxRetries attempt lastError w =
     (if attempt \<le> maxRetries then
        (case operation w of
           (Inr result, w') \<Rightarrow> (Inr result, w')
         | (Inl err, w') \<Rightarrow>
             withRetry_loop operation maxRetries (attempt + 1) (Some err)
               (if attempt < maxRetries then sleep (min (1000 * attempt) 2000) w' else w'))
      else (Inl lastError, w))"
  by pat_completeness auto
termination
  by (relation "measure (\<lambda>(operation, maxRetries, attempt, lastError, w). Suc maxRetries - attempt)")
     auto

declare withRetry_loop.simps [simp del]

definition withRetry ::
  "('w backend_scheme \<Rightarrow> (string + 'a) \<times> 'w backend_scheme) \<Rightarrow> nat
     \<Rightarrow> 'w backend_scheme \<Rightarrow> (string option + 'a) \<times> 'w backend_scheme" where
  "withRetry operation maxRetries w = withRetry_loop operation maxRetries 1 None w"

subsection \<open>\<open>uploadPhoto\<close>\<close>

record File =
  file_name :: string
  file_type :: string
  file_size :: nat

record upload_data =
  up_id :: nat
  up_imageurl :: string
  up_takenbyuserId :: string

datatype PhotoUploadResult = Success upload_data | Failure string

definition STORAGE_BUCKET :: string where
  "STORAGE_BUCKET = ''photos''"

definition MAX_PHOTOS_PER_USER :: nat where
  "MAX_PHOTOS_PER_USER = 5"

definition MAX_FILE_SIZE :: nat where
  "MAX_FILE_SIZE = 10 * 1024 * 1024"

text \<open>
  The part of \<open>uploadPhoto\<close> after the metadata insert has returned a value: on \<open>dbError\<close> the
  uploaded object is removed, whatever the removal answers or throws.
\<close>

definition after_insert ::
  "string \<Rightarrow> photo_row response \<Rightarrow> 'w backend_scheme \<Rightarrow> PhotoUploadResult \<times> 'w backend_scheme" where
  "after_insert fileName r w =
     (case error r of
        Some dbError \<Rightarrow>
          (case storage_remove fileName w of
             (_, w') \<Rightarrow> (Failure ''Failed to save photo metadata'', w'))
      | None \<Rightarrow>
          (case data r of
             Some photoData \<Rightarrow>
               (Success \<lparr>up_id = photo_id photoData, up_imageurl = imageurl photoData,
                         up_takenbyuserId = takenbyuserId photoData\<rparr>, w)
           | None \<Rightarrow> (Failure ''An unexpected error occurred during upload'', w)))"

text \<open>The part of \<open>uploadPhoto\<close> after the object has been written.\<close>

definition after_upload ::
  "string \<Rightarrow> string \<Rightarrow> 'w backend_scheme \<Rightarrow> PhotoUploadResult \<times> 'w backend_scheme" where
  "after_upload fileName userId w =
     (let url = publicUrl w fileName in
      if url = [] then (Failure ''Failed to get photo URL'', w)
      else
        (case withRetry (insert_photo userId url) 2 w of
           (Inl thrown, w') \<Rightarrow> (Failure ''An unexpected error occurred during upload'', w')
         | (Inr r, w') \<Rightarrow> after_insert fileName r w'))"

text \<open>The part of \<open>uploadPhoto\<close> after the photo count has been checked.\<close>

definition after_count ::
  "File \<Rightarrow> string \<Rightarrow> string \<Rightarrow> 'w backend_scheme \<Rightarrow> PhotoUploadResult \<times> 'w backend_scheme" where
  "after_count f userId organizationId w =
     (let fileName = generateFileName (now w) organizationId userId (file_name f) in
      case withRetry (storage_upload fileName) 2 w of
        (Inl thrown, w') \<Rightarrow> (Failure ''An unexpected error occurred during upload'', w')
      | (Inr r, w') \<Rightarrow>
          (case error r of
             Some uploadError \<Rightarrow> (Failure ''Failed to upload photo to storage'', w')
           | None \<Rightarrow>
               (case data r of
                  None \<Rightarrow> (Failure ''An unexpected error occurred during upload'', w')
                | Some uploadData \<Rightarrow> after_upload fileName userId w')))"

definition uploadPhoto ::
  "File \<Rightarrow> string \<Rightarrow> string \<Rightarrow> 'w backend_scheme \<Rightarrow> PhotoUploadResult \<times> 'w backend_scheme" where
  "uploadPhoto f userId organizationId w =
     (if \<not> startsWith (file_type f) ''image/'' then (Failure ''File must be an image'', w)
      else if file_size f > MAX_FILE_SIZE then (Failure ''File size must be less than 10MB'', w)
      else
        (case withRetry (select_photo_ids userId) 2 w of
           (Inl thrown, w') \<Rightarrow> (Failure ''An unexpected error occurred during upload'', w')
         | (Inr r, w') \<Rightarrow>
             (case error r of
                Some countError \<Rightarrow> (Failure ''Failed to check existing photos'', w')
              | None \<Rightarrow>
                  if (case data r of None \<Rightarrow> False
                      | Some existingPhotos \<Rightarrow> length existingPhotos \<ge> MAX_PHOTOS_PER_USER)
                  then (Failure (''Maximum of '' @ string_of_nat MAX_PHOTOS_PER_USER
                                 @ '' photos allowed per member''), w')
                  else after_count f userId organizationId w')))"


subsection \<open>What the claims about \<open>uploadPhoto\<close> speak of\<close>

definition owner_photos :: "string \<Rightarrow> 'a backend_scheme \<Rightarrow> photo_row list" where
  "owner_photos m w = filter (\<lambda>p. takenbyuserId p = m) (photos w)"

text \<open>An object write or a metadata insert.\<close>

fun is_write :: "event \<Rightarrow> bool" where
  "is_write (StorageUpload k) = True"
| "is_write (InsertPhoto u url) = True"
| "is_write e = False"

text \<open>The delays waited, in order.\<close>

fun delays :: "event list \<Rightarrow> nat list" where
  "delays [] = []"
| "delays (Sleep d # es) = d # delays es"
| "delays (e # es) = delays es"

text \<open>Calls of \<open>uploadPhoto\<close> one after the other, each on the state the previous one left.\<close>

fun run_uploads ::
  "(File \<times> string \<times> string) list \<Rightarrow> 'a backend_scheme \<Rightarrow> 'a backend_scheme" where
  "run_uploads [] w = w"
| "run_uploads ((f, userId, organizationId) # rest) w =
     run_uploads rest (snd (uploadPhoto f userId organizationId w))"

section \<open>Identity and profiles: \<open>mobile/src/lib/supabase.ts\<close>\<close>

subsection \<open>\<open>handleDatabaseError\<close>\<close>

text \<open>The \<open>message\<close> of the object \<open>handleDatabaseError\<close> returns.\<close>

definition handleDatabaseError :: "api_error \<Rightarrow> string \<Rightarrow> string" where
  "handleDatabaseError err operation =
     (if code err = ''PGRST116''
      then ''Database table not found. Please check your database setup.''
      else if code err = ''23505'' then ''This email is already registered.''
      else if code err = ''23503'' then ''Invalid organization code.''
      else if message err \<noteq> [] then message err
      else ''Failed to '' @ operation @ ''. Please try again.'')"

subsection \<open>\<open>createResilientFetch\<close>\<close>

text \<open>\<open>new Error(msg)\<close>, which has no \<open>code\<close>.\<close>

definition Error :: "string \<Rightarrow> api_error" where
  "Error msg = \<lparr>code = [], message = msg\<rparr>"

text \<open>The timer of a race fires after \<open>ms\<close> milliseconds.\<close>

definition timer_fires :: "nat \<Rightarrow> 'a backend_scheme \<Rightarrow> 'a backend_scheme" where
  "timer_fires ms w = w\<lparr>now := now w + ms\<rparr>"

text \<open>
  \<open>Math.min(1000 * Math.pow(2, attempt - 1), 3000)\<close>; the loop starts at \<open>attempt = 1\<close>, and
  at \<open>attempt = 0\<close> the source would compute \<open>1000 * 2^-1 = 500\<close>.
\<close>

definition backoff_delay :: "nat \<Rightarrow> nat" where
  "backoff_delay attempt = (if attempt = 0 then 500 else min (1000 * 2 ^ (attempt - 1)) 3000)"

text \<open>
  The function \<open>createResilientFetch\<close> returns: every attempt races \<open>fetchFn()\<close> against a
  timer of \<open>timeoutMs\<close>; \<open>Inl\<close> is the \<open>lastError\<close> it throws.
\<close>

function resilient_loop ::
  "('w backend_scheme \<Rightarrow> 'a settled \<times> 'w backend_scheme) \<Rightarrow> string \<Rightarrow> nat \<Rightarrow> nat \<Rightarrow> nat
     \<Rightarrow> api_error option \<Rightarrow> 'w backend_scheme \<Rightarrow> (api_error option + 'a) \<times> 'w backend_scheme" where
  "resilient_loop fetchFn operation maxRetries timeoutMs attempt lastError w =
     (if attempt \<le> maxRetries then
        (case fetchFn w of
           (Fulfilled result, w') \<Rightarrow> (Inr result, w')
         | (outcome, w') \<Rightarrow>
             (let (err, w'') =
                    (case outcome of
                       Rejected e \<Rightarrow> (e, w')
                     | _ \<Rightarrow> (Error (operation @ '' timeout after '' @ string_of_nat timeoutMs @ ''ms''),
                             timer_fires timeoutMs w'))
              in if js_includes (message err) ''Auth session missing''
                    \<or> js_includes (message err) ''Invalid JWT''
                    \<or> attempt = maxRetries
                 then (Inl (Some err), w'')
                 else resilient_loop fetchFn operation maxRetries timeoutMs (attempt + 1) (Some err)
                        (if attempt < maxRetries then sleep (backoff_delay attempt) w'' else w'')))
      else (Inl lastError, w))"
  by pat_completeness auto
termination
  by (relation "measure (\<lambda>(fetchFn, operation, maxRetries, timeoutMs, attempt, lastError, w).
                  Suc maxRetries - attempt)")
     auto

declare resilient_loop.simps [simp del]

definition createResilientFetch ::
  "('w backend_scheme \<Rightarrow> 'a settled \<times> 'w backend_scheme) \<Rightarrow> string \<Rightarrow> nat \<Rightarrow> nat
     \<Rightarrow> 'w backend_scheme \<Rightarrow> (api_error option + 'a) \<times> 'w backend_scheme" where
  "createResilientFetch fetchFn operation maxRetries timeoutMs w =
     resilient_loop fetchFn operation maxRetries timeoutMs 1 None w"

subsection \<open>\<open>getCurrentUser\<close>\<close>

definition getUser :: "'w backend_scheme \<Rightarrow> user_reply settled \<times> 'w backend_scheme" where
  "getUser w =
     (case getUser_replies w of
        [] \<Rightarrow> (Pending, record_call GetUser w)
      | r # rs \<Rightarrow> (r, record_call GetUser (w\<lparr>getUser_replies := rs\<rparr>)))"

definition getSession :: "string \<Rightarrow> 'w backend_scheme \<Rightarrow> session_reply settled \<times> 'w backend_scheme"
  where
  "getSession caller w =
     (case getSession_replies w of
        [] \<Rightarrow> (Pending, record_call (GetSession caller) w)
      | r # rs \<Rightarrow> (r, record_call (GetSession caller) (w\<lparr>getSession_replies := rs\<rparr>)))"

text \<open>
  What the code reads of the two settled results: the identity of a fulfilled result without
  \<open>error\<close>, and the \<open>error\<close> of a fulfilled result.
\<close>

definition identity_of_getUser :: "user_reply settled \<Rightarrow> User option" where
  "identity_of_getUser userResult =
     (case userResult of
        Fulfilled v \<Rightarrow> (if user_reply_error v = None then reply_user v else None)
      | _ \<Rightarrow> None)"

definition identity_of_getSession :: "session_reply settled \<Rightarrow> User option" where
  "identity_of_getSession sessionResult =
     (case sessionResult of
        Fulfilled v \<Rightarrow>
          (if session_reply_error v = None then map_option session_user (reply_session v)
           else None)
      | _ \<Rightarrow> None)"

text \<open>
  The \<open>fetchFn\<close> of \<open>getCurrentUser\<close>. \<open>Promise.allSettled\<close> settles when both calls have
  settled. Both branches after the two identity checks return \<open>null\<close>.
\<close>

definition fetchCurrentUser :: "'w backend_scheme \<Rightarrow> User option settled \<times> 'w backend_scheme" where
  "fetchCurrentUser w =
     (case getUser w of (userResult, w1) \<Rightarrow>
      case getSession ''GetCurrentUser'' w1 of (sessionResult, w2) \<Rightarrow>
        if userResult = Pending \<or> sessionResult = Pending then (Pending, w2)
        else
          (case identity_of_getUser userResult of
             Some u \<Rightarrow> (Fulfilled (Some u), w2)
           | None \<Rightarrow>
               (case identity_of_getSession sessionResult of
                  Some u \<Rightarrow> (Fulfilled (Some u), w2)
                | None \<Rightarrow>
                    (let userError = (case userResult of Fulfilled v \<Rightarrow> user_reply_error v
                                       | _ \<Rightarrow> None);
                         sessionError = (case sessionResult of Fulfilled v \<Rightarrow> session_reply_error v
                                          | _ \<Rightarrow> None)
                     in if map_option message userError = Some ''Auth session missing!''
                           \<or> map_option message sessionError = Some ''Auth session missing!''
                        then (Fulfilled None, w2)
                        else (Fulfilled None, w2)))))"

text \<open>\<open>getCurrentUser\<close>; \<open>Inl\<close> would be an exception that leaves it.\<close>

definition getCurrentUser ::
  "'w backend_scheme \<Rightarrow> (api_error option + User option) \<times> 'w backend_scheme" where
  "getCurrentUser w =
     (case createResilientFetch fetchCurrentUser ''GetCurrentUser'' 2 4000 w of
        (Inr user, w') \<Rightarrow> (Inr user, w')
      | (Inl thrown, w') \<Rightarrow> (Inr None, w'))"


subsection \<open>\<open>getUserProfile\<close>\<close>

record UserProfile =
  profile_id :: string
  profile_name :: string
  profile_email :: string
  profile_organization_id :: string
  profile_role :: "string option"
  profile_organizations :: "org_row option"

definition profile_of_row :: "'w backend_scheme \<Rightarrow> user_row \<Rightarrow> UserProfile" where
  "profile_of_row w r =
     \<lparr>profile_id = row_id r, profile_name = row_name r, profile_email = row_email r,
      profile_organization_id = row_organization_id r, profile_role = row_role r,
      profile_organizations = find (\<lambda>org. org_id org = row_organization_id r) (organizations w)\<rparr>"

text \<open>
  \<open>supabase.from('users').select('*, organizations (id, name, join_code)').eq('id', userId)
  .limit(1).maybeSingle()\<close>, as the promise the caller awaits or races.
\<close>

definition select_user_profile ::
  "string \<Rightarrow> 'w backend_scheme \<Rightarrow> UserProfile response settled \<times> 'w backend_scheme" where
  "select_user_profile userId w =
     (case next_fault (record_call (SelectUserProfile userId) w) of
        (Throws e, w') \<Rightarrow> (Rejected (Error e), w')
      | (LostAnswer e, w') \<Rightarrow> (Rejected (Error e), w')
      | (ErrorValue e, w') \<Rightarrow> (Fulfilled (refuse e), w')
      | (Late, w') \<Rightarrow> (Pending, w')
      | (NoFault, w') \<Rightarrow>
          (Fulfilled \<lparr>data = map_option (profile_of_row w')
                               (find (\<lambda>r. row_id r = userId) (users w')),
                      error = None\<rparr>, w'))"

text \<open>The \<open>fetchFn\<close> of \<open>getUserProfile\<close>: it throws the \<open>error\<close> of the answer.\<close>

definition fetchUserProfile ::
  "string \<Rightarrow> 'w backend_scheme \<Rightarrow> UserProfile option settled \<times> 'w backend_scheme" where
  "fetchUserProfile userId w =
     (if userId = [] then (Rejected (Error ''User ID is required''), w)
      else
        (case select_user_profile userId w of
           (Fulfilled r, w') \<Rightarrow>
             (case error r of
                Some e \<Rightarrow> (Rejected e, w')
              | None \<Rightarrow> (Fulfilled (data r), w'))
         | (Rejected e, w') \<Rightarrow> (Rejected e, w')
         | (Pending, w') \<Rightarrow> (Pending, w')))"

text \<open>
  \<open>getUserProfile\<close> returns \<open>{ data, error }\<close>, with the \<open>message\<close> of \<open>handleDatabaseError\<close>
  as \<open>error\<close>. A \<open>lastError\<close> of \<open>null\<close> has neither \<open>code\<close> nor \<open>message\<close>.
\<close>

record profile_result =
  result_data :: "UserProfile option"
  result_error :: "string option"

definition getUserProfile ::
  "string \<Rightarrow> 'w backend_scheme \<Rightarrow> profile_result \<times> 'w backend_scheme" where
  "getUserProfile userId w =
     (case createResilientFetch (fetchUserProfile userId) ''GetUserProfile'' 2 5000 w of
        (Inr d, w') \<Rightarrow> (\<lparr>result_data = d, result_error = None\<rparr>, w')
      | (Inl thrown, w') \<Rightarrow>
          (\<lparr>result_data = None,
            result_error = Some (handleDatabaseError
                                   (case thrown of Some e \<Rightarrow> e | None \<Rightarrow> Error [])
                                   ''fetch user profile'')\<rparr>, w'))"

subsection \<open>\<open>createUserProfileFromOAuth\<close>\<close>

text \<open>
  \<open>supabase.from('organizations').select('id, name').eq('join_code', joinCode).limit(1)
  .maybeSingle()\<close>, raced against a timer by its caller.
\<close>

definition select_org ::
  "string \<Rightarrow> 'w backend_scheme \<Rightarrow> org_row response settled \<times> 'w backend_scheme" where
  "select_org joinCode w =
     (case next_fault (record_call (SelectOrg joinCode) w) of
        (Throws e, w') \<Rightarrow> (Rejected (Error e), w')
      | (LostAnswer e, w') \<Rightarrow> (Rejected (Error e), w')
      | (ErrorValue e, w') \<Rightarrow> (Fulfilled (refuse e), w')
      | (Late, w') \<Rightarrow> (Pending, w')
      | (NoFault, w') \<Rightarrow>
          (Fulfilled \<lparr>data = find (\<lambda>org. join_code org = joinCode) (organizations w'),
                      error = None\<rparr>, w'))"

text \<open>
  \<open>supabase.from('users').select('id').eq('id', user.id).limit(1).maybeSingle()\<close>, awaited
  without a timer.
\<close>

definition select_user_id ::
  "string \<Rightarrow> 'w backend_scheme \<Rightarrow> (string + string response) \<times> 'w backend_scheme" where
  "select_user_id userId w =
     (case next_fault (record_call (SelectUserId userId) w) of
        (Throws e, w') \<Rightarrow> (Inl e, w')
      | (LostAnswer e, w') \<Rightarrow> (Inl e, w')
      | (ErrorValue e, w') \<Rightarrow> (Inr (refuse e), w')
      | (_, w') \<Rightarrow>
          (Inr \<lparr>data = map_option row_id (find (\<lambda>r. row_id r = userId) (users w')),
                error = None\<rparr>, w'))"

text \<open>
  Modelled from the spec: the table \<open>users\<close> is not declared in the sources. The specification
  has at most one profile row for an identity, enforced by the database, and the photo table
  refers to \<open>users(id)\<close> as a key; a row whose \<open>id\<close> is taken is refused with the code of a
  unique violation, and a row of an unknown organization with the code of a foreign-key
  violation. With \<open>LostAnswer\<close> a row that is accepted is in the table and the promise rejects.
\<close>

definition insert_user ::
  "user_row \<Rightarrow> 'w backend_scheme \<Rightarrow> (string + unit response) \<times> 'w backend_scheme" where
  "insert_user r w =
     (case next_fault (record_call (InsertUser r) w) of
        (Throws e, w') \<Rightarrow> (Inl e, w')
      | (LostAnswer e, w') \<Rightarrow>
          (Inl e, if row_id r \<in> set (map row_id (users w'))
                     \<or> row_organization_id r \<notin> set (map org_id (organizations w'))
                  then w' else w'\<lparr>users := users w' @ [r]\<rparr>)
      | (ErrorValue e, w') \<Rightarrow> (Inr (refuse e), w')
      | (_, w') \<Rightarrow>
          (if row_id r \<in> set (map row_id (users w'))
           then (Inr (refuse \<lparr>code = ''23505'',
                              message = ''duplicate key value violates unique constraint''\<rparr>), w')
           else if row_organization_id r \<notin> set (map org_id (organizations w'))
           then (Inr (refuse \<lparr>code = ''23503'',
                              message = ''insert or update violates foreign key constraint''\<rparr>), w')
           else (Inr \<lparr>data = None, error = None\<rparr>, w'\<lparr>users := users w' @ [r]\<rparr>)))"

text \<open>\<open>a || b\<close> on strings that may be absent: an absent or empty \<open>a\<close> gives \<open>b\<close>.\<close>

definition or_else :: "string option \<Rightarrow> string option \<Rightarrow> string option" where
  "or_else a b = (case a of Some (c # cs) \<Rightarrow> a | _ \<Rightarrow> b)"

text \<open>\<open>user.email?.split('@')[0]\<close>\<close>

definition email_local_part :: "string option \<Rightarrow> string option" where
  "email_local_part e = map_option (takeWhile (\<lambda>c. c \<noteq> CHR ''@'')) e"

text \<open>\<open>a || 'literal'\<close>\<close>

definition or_default :: "string option \<Rightarrow> string \<Rightarrow> string" where
  "or_default a b = (case a of Some (c # cs) \<Rightarrow> c # cs | _ \<Rightarrow> b)"

definition userName_of :: "User \<Rightarrow> string" where
  "userName_of user =
     or_default (or_else (or_else (metadata_full_name user) (metadata_name user))
                   (email_local_part (user_email user)))
       ''Unknown User''"

definition new_profile_row :: "User \<Rightarrow> org_row \<Rightarrow> string option \<Rightarrow> user_row" where
  "new_profile_row user orgData role =
     \<lparr>row_id = user_id user,
      row_name = trim (userName_of user),
      row_email = or_default (map_option (toLowerCase \<circ> trim) (user_email user)) [],
      row_organization_id = org_id orgData,
      row_role = Some (or_default (map_option trim role) ''member'')\<rparr>"

text \<open>
  The loop \<open>while (attempts < maxAttempts)\<close> with \<open>maxAttempts = 3\<close>; the result is the
  \<open>message\<close> of the returned \<open>error\<close>, \<open>None\<close> for \<open>{ error: null }\<close>.
\<close>

function insert_profile_loop ::
  "user_row \<Rightarrow> nat \<Rightarrow> 'w backend_scheme \<Rightarrow> string option \<times> 'w backend_scheme" where
  "insert_profile_loop r attempts w =
     (if attempts < 3 then
        (case insert_user r w of
           (Inl thrown, w') \<Rightarrow> (Some ''Failed to create user profile'', w')
         | (Inr res, w') \<Rightarrow>
             (case error res of
                None \<Rightarrow> (None, w')
              | Some profileError \<Rightarrow>
                  if attempts = 3 - 1
                  then (Some (handleDatabaseError profileError ''create user profile''), w')
                  else insert_profile_loop r (attempts + 1) (sleep 1000 w')))
      else (Some ''Failed to create profile after multiple attempts'', w))"
  by pat_completeness auto
termination
  by (relation "measure (\<lambda>(r, attempts, w). 3 - attempts)") auto

declare insert_profile_loop.simps [simp del]

definition createUserProfileFromOAuth ::
  "User option \<Rightarrow> string \<Rightarrow> string option \<Rightarrow> 'w backend_scheme
     \<Rightarrow> string option \<times> 'w backend_scheme" where
  "createUserProfileFromOAuth user joinCode role w =
     (case user of
        None \<Rightarrow> (Some ''Invalid user data'', w)
      | Some u \<Rightarrow>
          if user_id u = [] then (Some ''Invalid user data'', w)
          else if trim joinCode = [] then (Some ''Join code is required'', w)
          else
            (case select_org (trim joinCode) w of
               (Pending, w1) \<Rightarrow> (Some ''An unexpected error occurred'', timer_fires 5000 w1)
             | (Rejected e, w1) \<Rightarrow> (Some ''An unexpected error occurred'', w1)
             | (Fulfilled orgRes, w1) \<Rightarrow>
                 (case error orgRes of
                    Some orgError \<Rightarrow>
                      (Some (handleDatabaseError orgError ''validate organization''), w1)
                  | None \<Rightarrow>
                      (case data orgRes of
                         None \<Rightarrow> (Some ''Invalid join code'', w1)
                       | Some orgData \<Rightarrow>
                           (case select_user_id (user_id u) w1 of
                              (Inl thrown, w2) \<Rightarrow> (Some ''An unexpected error occurred'', w2)
                            | (Inr existing, w2) \<Rightarrow>
                                (case data existing of
                                   Some existingProfile \<Rightarrow> (None, w2)
                                 | None \<Rightarrow>
                                     insert_profile_loop (new_profile_row u orgData role) 0 w2))))))"


section \<open>The session store: \<open>AuthProvider\<close> of \<open>context/AuthContext.tsx\<close>\<close>

text \<open>
  The state of the provider (\<open>user\<close>, \<open>profile\<close>, \<open>isLoading\<close>, \<open>error\<close>) and
  \<open>retryCountRef.current\<close>, beside the state outside the client.
\<close>

record auth = backend +
  user :: "User option"
  profile :: "UserProfile option"
  isLoading :: bool
  auth_error :: "string option"
  retryCount :: nat

definition maxRetries :: nat where
  "maxRetries = 2"

text \<open>
  \<open>validateExistingSession\<close>: \<open>getSession()\<close> is raced against a timer of 3000 ms, and every
  exception ends in \<open>return false\<close>.
\<close>

definition validateExistingSession :: "'w auth_scheme \<Rightarrow> bool \<times> 'w auth_scheme" where
  "validateExistingSession w =
     (case getSession ''AuthContext'' w of
        (Pending, w') \<Rightarrow> (False, timer_fires 3000 w')
      | (Rejected e, w') \<Rightarrow> (False, w')
      | (Fulfilled r, w') \<Rightarrow>
          (case (session_reply_error r, reply_session r) of
             (None, Some session) \<Rightarrow>
               if access_token session = [] then (False, w')
               else if (case expires_at session of
                          None \<Rightarrow> False
                        | Some e \<Rightarrow> e \<noteq> 0 \<and> e * 1000 < now w')
               then (False, w')
               else (True, w')
           | _ \<Rightarrow> (False, w')))"

text \<open>
  The message \<open>Network delay ... some data may not load. Try refreshing.\<close> of the source,
  whose dash is written as a hyphen here.
\<close>

definition NETWORK_DELAY :: string where
  "NETWORK_DELAY = ''Network delay - some data may not load. Try refreshing.''"

text \<open>The branch \<open>if (currentUser)\<close> of \<open>checkAuthStatus\<close>.\<close>

definition with_user :: "User \<Rightarrow> 'w auth_scheme \<Rightarrow> bool \<times> 'w auth_scheme" where
  "with_user currentUser w =
     (case getUserProfile (user_id currentUser) w of
        (res, w') \<Rightarrow>
          (case result_error res of
             Some profileError \<Rightarrow>
               (False, w'\<lparr>profile := None,
                          auth_error :=
                            Some (if js_includes profileError ''timeout'' then NETWORK_DELAY
                                  else if profileError \<noteq> [] then profileError
                                  else ''Failed to load user profile'')\<rparr>)
           | None \<Rightarrow>
               (result_data res \<noteq> None, w'\<lparr>profile := result_data res, retryCount := 0\<rparr>)))"

text \<open>The branch \<open>else\<close> of \<open>checkAuthStatus\<close>: no user was found.\<close>

definition without_user :: "'w auth_scheme \<Rightarrow> bool \<times> 'w auth_scheme" where
  "without_user w =
     (let w1 = w\<lparr>profile := None\<rparr> in
      if retryCount w1 \<ge> maxRetries then
        (case validateExistingSession w1 of
           (hasValidSession, w2) \<Rightarrow>
             if \<not> hasValidSession then (False, w2\<lparr>retryCount := 0\<rparr>)
             else (False, w2\<lparr>auth_error := Some ''Session temporarily unavailable. Please try again.''\<rparr>))
      else (False, w1))"

text \<open>
  The first part of the \<open>try\<close> block of \<open>checkAuthStatus\<close>, up to the value of \<open>currentUser\<close>;
  \<open>Inl\<close> is an exception on its way to the \<open>catch\<close> block.
\<close>

definition find_current_user ::
  "'w auth_scheme \<Rightarrow> (api_error option + User option) \<times> 'w auth_scheme" where
  "find_current_user w =
     (case getCurrentUser w of
        (Inl thrown, w1) \<Rightarrow> (Inl thrown, w1)
      | (Inr currentUser, w1) \<Rightarrow>
          if currentUser = None \<and> retryCount w1 < maxRetries then
            (case validateExistingSession (w1\<lparr>retryCount := retryCount w1 + 1\<rparr>) of
               (hasValidSession, w2) \<Rightarrow>
                 if hasValidSession then getCurrentUser (sleep 1000 w2)
                 else (Inr currentUser, w2))
          else (Inr currentUser, w1))"

text \<open>\<open>checkAuthStatus\<close>; the \<open>finally\<close> block runs on every path.\<close>

definition checkAuthStatus :: "'w auth_scheme \<Rightarrow> bool \<times> 'w auth_scheme" where
  "checkAuthStatus w =
     (case
        (case find_current_user (w\<lparr>auth_error := None\<rparr>) of
           (Inl thrown, w1) \<Rightarrow>
             (let msg = (case thrown of Some e \<Rightarrow> message e | None \<Rightarrow> []) in
              (False, w1\<lparr>auth_error :=
                            Some (if js_includes msg ''timeout'' \<or> js_includes msg ''network''
                                  then NETWORK_DELAY
                                  else if msg \<noteq> [] then msg
                                  else ''Authentication check failed''),
                          user := None, profile := None\<rparr>))
         | (Inr currentUser, w1) \<Rightarrow>
             (case currentUser of
                Some u \<Rightarrow> with_user u (w1\<lparr>user := currentUser\<rparr>)
              | None \<Rightarrow> without_user (w1\<lparr>user := None\<rparr>)))
      of (res, w') \<Rightarrow> (res, w'\<lparr>isLoading := False\<rparr>))"

section \<open>The OAuth callback: \<open>src/components/auth/AuthHandler.tsx\<close>\<close>

text \<open>
  \<open>window.location\<close>, and the state of the component: \<open>isProcessing\<close> and \<open>error\<close>. The
  effect that schedules \<open>handleOAuthCallback\<close> depends on \<open>isProcessing\<close>, so every invocation
  reads the value the state has when it starts.
\<close>

record page = auth +
  pathname :: string
  search :: string
  hash :: string
  isProcessing :: bool
  handler_error :: "string option"

definition hasOAuthHash :: "'w page_scheme \<Rightarrow> bool" where
  "hasOAuthHash p =
     (hash p \<noteq> [] \<and> (js_includes (hash p) ''access_token'' \<or> js_includes (hash p) ''error''))"

definition hasOAuthParams :: "'w page_scheme \<Rightarrow> bool" where
  "hasOAuthParams p =
     (search p \<noteq> [] \<and> (js_includes (search p) ''code='' \<or> js_includes (search p) ''error=''))"

text \<open>\<open>window.history.replaceState(null, '', window.location.pathname)\<close>\<close>

definition cleanUrl :: "'w page_scheme \<Rightarrow> 'w page_scheme" where
  "cleanUrl p = record_call (ReplaceState (pathname p)) (p\<lparr>search := [], hash := []\<rparr>)"

definition navigate :: "string \<Rightarrow> 'w page_scheme \<Rightarrow> 'w page_scheme" where
  "navigate path p = record_call (Navigate path) p"

text \<open>
  \<open>supabase.from('users').select('id, organization_id').eq('id', session.user.id)
  .maybeSingle()\<close>, raced against a timer of 10 s.
\<close>

definition select_user_id_org ::
  "string \<Rightarrow> 'w backend_scheme \<Rightarrow> (string \<times> string) response settled \<times> 'w backend_scheme" where
  "select_user_id_org userId w =
     (case next_fault (record_call (SelectUserIdOrg userId) w) of
        (Throws e, w') \<Rightarrow> (Rejected (Error e), w')
      | (LostAnswer e, w') \<Rightarrow> (Rejected (Error e), w')
      | (ErrorValue e, w') \<Rightarrow> (Fulfilled (refuse e), w')
      | (Late, w') \<Rightarrow> (Pending, w')
      | (NoFault, w') \<Rightarrow>
          (Fulfilled \<lparr>data = map_option (\<lambda>r. (row_id r, row_organization_id r))
                               (find (\<lambda>r. row_id r = userId) (users w')),
                      error = None\<rparr>, w'))"

text \<open>
  \<open>handleOAuthCallback\<close> up to its first \<open>await\<close>: the guard, the detection, the two state
  updates and the call of \<open>supabase.auth.getSession()\<close>. The result says whether the session
  request was sent.
\<close>

definition handleOAuthCallback_begin :: "'w page_scheme \<Rightarrow> bool \<times> 'w page_scheme" where
  "handleOAuthCallback_begin p =
     (if isProcessing p then (False, p)
      else if \<not> hasOAuthHash p \<and> \<not> hasOAuthParams p then (False, p)
      else (True, record_call (GetSession ''AuthHandler'')
                    (p\<lparr>isProcessing := True, handler_error := None\<rparr>)))"

text \<open>The \<open>catch\<close> block of \<open>handleOAuthCallback\<close>.\<close>

definition callback_failed :: "api_error \<Rightarrow> 'w page_scheme \<Rightarrow> 'w page_scheme" where
  "callback_failed err p =
     record_call (NavigateAfter 2000 ''/login'')
       (cleanUrl (p\<lparr>handler_error :=
                      Some (if message err \<noteq> [] then message err else ''Authentication failed'')\<rparr>))"

text \<open>
  The part of the \<open>try\<close> block after the session has been retrieved. \<open>checkAuthStatus()\<close> is
  raced against a timer of 8 s and both outcomes of the race navigate to \<open>/org-home\<close>; the
  race does not stop \<open>checkAuthStatus\<close>, whose effects are those of a call that runs to its
  end. When the timer wins, the source navigates while \<open>checkAuthStatus\<close> is still running, so
  that the calls it has yet to send follow the navigation; here they are recorded before it.
  The place of the navigation among the calls of \<open>checkAuthStatus\<close> is thus not modelled, and
  nothing below depends on it.
\<close>

definition with_session :: "Session \<Rightarrow> 'w page_scheme \<Rightarrow> 'w page_scheme" where
  "with_session session p =
     (case select_user_id_org (user_id (session_user session)) (cleanUrl p) of
        (Pending, p1) \<Rightarrow> callback_failed (Error ''Profile check timeout'') (timer_fires 10000 p1)
      | (Rejected e, p1) \<Rightarrow> callback_failed e p1
      | (Fulfilled r, p1) \<Rightarrow>
          (case error r of
             Some profileError \<Rightarrow> navigate ''/post-auth'' p1
           | None \<Rightarrow>
               (case data r of
                  Some profileData \<Rightarrow> navigate ''/org-home'' (snd (checkAuthStatus p1))
                | None \<Rightarrow> navigate ''/post-auth'' p1)))"

text \<open>
  \<open>handleOAuthCallback\<close> from the moment the race between the session request and the timer
  of 15 s settles, with the \<open>finally\<close> block.
\<close>

definition handleOAuthCallback_resume :: "'w page_scheme \<Rightarrow> 'w page_scheme" where
  "handleOAuthCallback_resume p =
     (let (reply, p1) =
            (case getSession_replies p of
               [] \<Rightarrow> (Pending, p)
             | r # rs \<Rightarrow> (r, p\<lparr>getSession_replies := rs\<rparr>));
          p2 =
            (case reply of
               Pending \<Rightarrow> callback_failed (Error ''Session retrieval timeout'') (timer_fires 15000 p1)
             | Rejected e \<Rightarrow> callback_failed e p1
             | Fulfilled r \<Rightarrow>
                 (case session_reply_error r of
                    Some sessionError \<Rightarrow>
                      callback_failed
                        (Error (''OAuth authentication failed: '' @ message sessionError)) p1
                  | None \<Rightarrow>
                      (case reply_session r of
                         None \<Rightarrow>
                           callback_failed (Error ''Authentication failed. No session created.'') p1
                       | Some session \<Rightarrow> with_session session p1)))
      in p2\<lparr>isProcessing := False\<rparr>)"

definition handleOAuthCallback :: "'w page_scheme \<Rightarrow> 'w page_scheme" where
  "handleOAuthCallback p =
     (case handleOAuthCallback_begin p of
        (True, p') \<Rightarrow> handleOAuthCallback_resume p'
      | (False, p') \<Rightarrow> p')"

text \<open>The session requests \<open>handleOAuthCallback\<close> has sent.\<close>

definition session_exchanges :: "'w page_scheme \<Rightarrow> nat" where
  "session_exchanges p = length (filter (\<lambda>e. e = GetSession ''AuthHandler'') (calls p))"


section \<open>Example states\<close>

definition photo_file :: File where
  "photo_file = \<lparr>file_name = ''my photo.jpg'', file_type = ''image/jpeg'',
                  file_size = 2 * 1024 * 1024\<rparr>"

text \<open>A JPEG of 12 MiB.\<close>

definition big_file :: File where
  "big_file = \<lparr>file_name = ''big.jpg'', file_type = ''image/jpeg'',
                file_size = 12 * 1024 * 1024\<rparr>"

definition example_row :: "nat \<Rightarrow> photo_row" where
  "example_row i = \<lparr>photo_id = i, takenbyuserId = ''u1'', imageurl = ''https://cdn.example/p'',
                    created_at = 1719700000000\<rparr>"

definition empty_backend :: backend where
  "empty_backend =
     \<lparr>photos = [], objects = [], users = [], organizations = [],
      publicUrl = (\<lambda>k. ''https://cdn.example/'' @ k), now = 1719700000000, faults = [],
      getUser_replies = [], getSession_replies = [], calls = []\<rparr>"

text \<open>The member \<open>u1\<close> has five photos.\<close>

definition full_backend :: backend where
  "full_backend = empty_backend\<lparr>photos := map example_row [1, 2, 3, 4, 5]\<rparr>"

text \<open>
  The member \<open>u1\<close> has four photos, and the answer of the third call to the backend is
  lost after the call has been carried out.
\<close>

definition four_backend :: backend where
  "four_backend = empty_backend\<lparr>photos := map example_row [1, 2, 3, 4]\<rparr>"


section \<open>Notions of the specification and of the proofs, and further example states\<close>

text \<open>
  A fault that loses the answer of a call the backend has carried out, and the backends on
  which no answer is lost from now on.
\<close>

fun is_lost :: "fault \<Rightarrow> bool" where
  "is_lost (LostAnswer e) = True"
| "is_lost f = False"

definition answers_arrive :: "'a backend_scheme \<Rightarrow> bool" where
  "answers_arrive w = (filter is_lost (faults w) = [])"

text \<open>
  The delay the specification gives for the wait after attempt number \<open>attempt\<close>:
  \<open>min(base * 2^(attempt-1), capMs)\<close>.
\<close>

definition exponential_backoff :: "nat \<Rightarrow> nat \<Rightarrow> nat \<Rightarrow> nat" where
  "exponential_backoff base capMs attempt = min (base * 2 ^ (attempt - 1)) capMs"

text \<open>
  Two parts of the loop of \<open>createResilientFetch\<close>: the error a failed attempt leaves in
  \<open>lastError\<close> (the rejection of \<open>fetchFn()\<close>, or that of the timer), and the test that ends
  the loop.
\<close>

definition attempt_error ::
  "string \<Rightarrow> nat \<Rightarrow> 'a settled \<Rightarrow> 'w backend_scheme \<Rightarrow> api_error \<times> 'w backend_scheme" where
  "attempt_error name t x v =
     (case x of Rejected e \<Rightarrow> (e, v)
      | _ \<Rightarrow> (Error (name @ '' timeout after '' @ string_of_nat t @ ''ms''), timer_fires t v))"

definition gives_up :: "api_error \<Rightarrow> nat \<Rightarrow> nat \<Rightarrow> bool" where
  "gives_up err a m = (js_includes (message err) ''Auth session missing''
                    \<or> js_includes (message err) ''Invalid JWT'' \<or> a = m)"

text \<open>An operation that throws at every attempt, and a fetch that never settles.\<close>

definition always_throws :: "backend \<Rightarrow> (string + unit) \<times> backend" where
  "always_throws v = (Inl ''Failed to fetch'', v)"

definition never_settles :: "backend \<Rightarrow> unit settled \<times> backend" where
  "never_settles v = (Pending, v)"

text \<open>An identity, a session of hers that has not expired, and her profile row.\<close>

definition alice :: User where
  "alice = \<lparr>user_id = ''u1'', user_email = Some ''alice@acme.com'',
            metadata_full_name = Some ''Alice'', metadata_name = None\<rparr>"

definition alice_session :: Session where
  "alice_session = \<lparr>access_token = ''token'', expires_at = Some 1719800000,
                    session_user = alice\<rparr>"



definition alice_session_reply :: session_reply where
  "alice_session_reply = \<lparr>reply_session = Some alice_session, session_reply_error = None\<rparr>"



text \<open>\<open>getSession\<close> answers with the session at once; \<open>getUser\<close> does not answer in time.\<close>

definition slow_getUser_backend :: backend where
  "slow_getUser_backend =
     empty_backend\<lparr>getUser_replies := [Pending, Pending],
                    getSession_replies := [Fulfilled alice_session_reply,
                                           Fulfilled alice_session_reply]\<rparr>"

text \<open>\<open>getUser\<close> is rejected with a network error; \<open>getSession\<close> answers with the session.\<close>

definition failing_getUser_backend :: backend where
  "failing_getUser_backend =
     empty_backend\<lparr>getUser_replies := [Rejected (Error ''Failed to fetch'')],
                    getSession_replies := [Fulfilled alice_session_reply]\<rparr>"

text \<open>
  At the first attempt \<open>getUser\<close> does not answer in time; at the second it is rejected and
  \<open>getSession\<close> answers with the session.
\<close>

definition recovering_backend :: backend where
  "recovering_backend =
     empty_backend\<lparr>getUser_replies := [Pending, Rejected (Error ''Failed to fetch'')],
                    getSession_replies := [Fulfilled alice_session_reply,
                                           Fulfilled alice_session_reply]\<rparr>"

text \<open>
  The answer the identity provider gives to the call number \<open>i\<close> (from 0) of one kind, from the
  answers it has in store; a call beyond them is not answered in time.
\<close>

definition reply_at :: "'a settled list \<Rightarrow> nat \<Rightarrow> 'a settled" where
  "reply_at rs i = (if i < length rs then rs ! i else Pending)"

definition alice_profile :: UserProfile where
  "alice_profile =
     \<lparr>profile_id = ''u1'', profile_name = ''Alice'', profile_email = ''alice@acme.com'',
      profile_organization_id = ''org1'', profile_role = Some ''member'',
      profile_organizations = Some \<lparr>org_id = ''org1'', org_name = ''Acme'',
                                     join_code = ''ACME-2024''\<rparr>\<rparr>"

text \<open>
  The provider holds the identity and the profile of a signed-in member, no automatic check
  has failed yet, and every call to the identity provider is still pending when its timer
  fires.
\<close>

definition offline_session :: auth where
  "offline_session =
     \<lparr>photos = [], objects = [], users = [], organizations = [],
      publicUrl = (\<lambda>k. ''https://cdn.example/'' @ k), now = 1719700000000, faults = [],
      getUser_replies = [Pending, Pending, Pending, Pending],
      getSession_replies = [Pending, Pending, Pending, Pending, Pending, Pending],
      calls = [],
      user = Some alice, profile = Some alice_profile, isLoading = False, auth_error = None,
      retryCount = 0\<rparr>"

text \<open>
  What \<open>handleOAuthCallback\<close> looks at and counts: the session requests it has sent, the
  address, and \<open>isProcessing\<close>.
\<close>

definition handler_view :: "'w page_scheme \<Rightarrow> nat \<times> string \<times> string \<times> string \<times> bool" where
  "handler_view v = (session_exchanges v, pathname v, search v, hash v, isProcessing v)"

text \<open>
  The page a federated login redirects to, with the access token in the fragment, and the
  same page with an authorization code in the query string instead.
\<close>

definition callback_page :: page where
  "callback_page =
     \<lparr>photos = [], objects = [],
      users = [\<lparr>row_id = ''u1'', row_name = ''Alice'', row_email = ''alice@acme.com'',
                row_organization_id = ''org1'', row_role = Some ''member''\<rparr>],
      organizations = [\<lparr>org_id = ''org1'', org_name = ''Acme'', join_code = ''ACME-2024''\<rparr>],
      publicUrl = (\<lambda>k. ''https://cdn.example/'' @ k), now = 1719700000000, faults = [],
      getUser_replies = [Fulfilled \<lparr>reply_user = Some alice, user_reply_error = None\<rparr>],
      getSession_replies = [Fulfilled alice_session_reply, Fulfilled alice_session_reply],
      calls = [],
      user = None, profile = None, isLoading = False, auth_error = None, retryCount = 0,
      pathname = ''/'', search = [], hash = ''#access_token=abc&refresh_token=def'',
      isProcessing = False, handler_error = None\<rparr>"

definition code_page :: page where
  "code_page = callback_page\<lparr>search := ''?code=abc'', hash := []\<rparr>"

text \<open>The same once the address has been cleaned.\<close>

definition cleaned_view :: "'w page_scheme \<Rightarrow> nat \<times> string \<times> string \<times> string \<times> bool" where
  "cleaned_view v = (session_exchanges v, pathname v, [], [], isProcessing v)"

text \<open>The organization \<open>Acme\<close> with join code \<open>ACME-2024\<close>, and no member yet.\<close>

definition acme_backend :: backend where
  "acme_backend =
     empty_backend\<lparr>organizations :=
                      [\<lparr>org_id = ''org1'', org_name = ''Acme'', join_code = ''ACME-2024''\<rparr>]\<rparr>"

definition new_member :: User where
  "new_member = \<lparr>user_id = ''u1'', user_email = Some ''a@acme.com'',
                 metadata_full_name = None, metadata_name = None\<rparr>"

text \<open>The profile row that provisioning creates for \<open>new_member\<close> in \<open>Acme\<close>.\<close>

definition new_member_row :: user_row where
  "new_member_row = \<lparr>row_id = ''u1'', row_name = ''a'', row_email = ''a@acme.com'',
                     row_organization_id = ''org1'', row_role = Some ''member''\<rparr>"

text \<open>
  The member has a profile row, and the organization lookup is not answered in time; and the
  same, with the lookup answered and the query for the profile row answered with an error.
\<close>

definition slow_lookup_backend :: backend where
  "slow_lookup_backend = acme_backend\<lparr>users := [new_member_row], faults := [Late]\<rparr>"

definition failed_query_backend :: backend where
  "failed_query_backend =
     acme_backend\<lparr>users := [new_member_row],
                   faults := [NoFault, ErrorValue \<lparr>code = ''500'',
                                                   message = ''Internal Server Error''\<rparr>]\<rparr>"

text \<open>
  The two reads with which \<open>createUserProfileFromOAuth\<close> begins, the organization lookup for
  the join code and then the query for the profile row of the identity, are both answered
  without error, the lookup before its timer fires.
\<close>

definition reads_answered :: "string \<Rightarrow> string \<Rightarrow> 'w backend_scheme \<Rightarrow> bool" where
  "reads_answered joinCode userId w =
     (case select_org joinCode w of
        (Fulfilled orgRes, w1) \<Rightarrow>
          error orgRes = None
          \<and> (case select_user_id userId w1 of
                (Inr existing, w2) \<Rightarrow> error existing = None
              | (Inl thrown, w2) \<Rightarrow> False)
      | (outcome, w1) \<Rightarrow> False)"

section \<open>Verification: photo storage\<close>

subsection \<open>The retry loop\<close>

text \<open>
  A property that failed attempts and delays keep holds when \<open>withRetry\<close> gives up, and held
  in the state on which the successful attempt ran.
\<close>

lemma withRetry_loop_cases:
  assumes "\<And>v e v'. P v \<Longrightarrow> operation v = (Inl e, v') \<Longrightarrow> P v'"
      and "\<And>d v. P v \<Longrightarrow> P (sleep d v)"
      and "P w"
  shows "case withRetry_loop operation m a l w of
           (Inl e, w') \<Rightarrow> P w'
         | (Inr r, w') \<Rightarrow> (\<exists>w1. P w1 \<and> operation w1 = (Inr r, w'))"
  using assms
proof (induction operation m a l w rule: withRetry_loop.induct)
  case (1 operation maxRetries attempt lastError w)
  note fail = "1.prems"(1) and slp = "1.prems"(2) and Pw = "1.prems"(3)
  show ?case
  proof (cases "attempt \<le> maxRetries")
    case False
    then show ?thesis using Pw by (simp add: withRetry_loop.simps)
  next
    case True
    obtain x v where op: "operation w = (x, v)" by (cases "operation w")
    show ?thesis
    proof (cases x)
      case (Inr r)
      then show ?thesis using True op Pw
        by (auto simp: withRetry_loop.simps [of operation maxRetries attempt])
    next
      case (Inl e)
      have Pv: "P v" using fail [OF Pw] op Inl by blast
      have "P (if attempt < maxRetries then sleep (min (1000 * attempt) 2000) v else v)"
        using Pv slp by simp
      from "1.IH" [OF True op [symmetric] Inl fail slp this]
      show ?thesis using True op Inl
        by (simp add: withRetry_loop.simps [of operation maxRetries attempt])
    qed
  qed
qed


lemma withRetry_cases:
  assumes "\<And>v e v'. P v \<Longrightarrow> operation v = (Inl e, v') \<Longrightarrow> P v'"
      and "\<And>d v. P v \<Longrightarrow> P (sleep d v)"
      and "P w"
      and "withRetry operation m w = (x, w')"
  shows "(\<exists>e. x = Inl e \<and> P w') \<or> (\<exists>r w1. x = Inr r \<and> P w1 \<and> operation w1 = (Inr r, w'))"
  using withRetry_loop_cases [of P operation w m 1 None, OF assms(1,2,3)] assms(4)
  by (cases x) (auto simp: withRetry_def)

subsection \<open>The effects of the calls\<close>

lemma sleep_fields [simp]:
  "photos (sleep d w) = photos w" "objects (sleep d w) = objects w"
  "filter is_write (calls (sleep d w)) = filter is_write (calls w)"
  "publicUrl (sleep d w) = publicUrl w"
  "answers_arrive (sleep d w) = answers_arrive w"
  by (simp_all add: sleep_def record_call_def answers_arrive_def)

lemma select_photo_ids_effect:
  assumes "select_photo_ids u w = (x, w')"
  shows "photos w' = photos w \<and> objects w' = objects w \<and> publicUrl w' = publicUrl w
         \<and> filter is_write (calls w') = filter is_write (calls w)
         \<and> (\<forall>r. x = Inr r \<and> error r = None \<longrightarrow>
               data r = Some (take 10 (map photo_id (owner_photos u w))))"
  using assms
  by (auto simp: select_photo_ids_def next_fault_def record_call_def answer_def refuse_def
        owner_photos_def split: list.splits fault.splits)

lemma select_photo_ids_arrive:
  "answers_arrive w \<Longrightarrow> answers_arrive (snd (select_photo_ids u w))"
  by (auto simp: select_photo_ids_def next_fault_def record_call_def answers_arrive_def
        split: list.splits fault.splits)

lemma storage_upload_effect:
  assumes "storage_upload k w = (x, w')"
  shows "photos w' = photos w \<and> publicUrl w' = publicUrl w"
  using assms
  by (auto simp: storage_upload_def next_fault_def record_call_def answer_def refuse_def
        split: list.splits fault.splits if_splits)

lemma storage_upload_arrive:
  "answers_arrive w \<Longrightarrow> answers_arrive (snd (storage_upload k w))"
  by (auto simp: storage_upload_def next_fault_def record_call_def answers_arrive_def
        split: list.splits fault.splits)

lemma storage_remove_effect:
  assumes "storage_remove k w = (x, w')"
  shows "photos w' = photos w"
  using assms
  by (auto simp: storage_remove_def next_fault_def record_call_def answer_def refuse_def
        split: list.splits fault.splits if_splits)

lemma storage_remove_arrive:
  "answers_arrive w \<Longrightarrow> answers_arrive (snd (storage_remove k w))"
  by (auto simp: storage_remove_def next_fault_def record_call_def answers_arrive_def
        split: list.splits fault.splits)

text \<open>
  An insert whose answer arrives and that is rejected has left the table as it was; one that
  is answered has added at most one row, of the owner.
\<close>

lemma insert_photo_effect:
  assumes "insert_photo u url w = (x, w')" and "answers_arrive w"
  shows "answers_arrive w'
       \<and> ((\<exists>e. x = Inl e \<and> photos w' = photos w)
          \<or> (\<exists>r. x = Inr r \<and>
                (photos w' = photos w \<or>
                 (\<exists>row. takenbyuserId row = u \<and> photos w' = photos w @ [row]))))"
proof (cases "faults w")
  case Nil
  then show ?thesis using assms
    by (auto simp: insert_photo_def next_fault_def record_call_def answer_def Let_def
          new_photo_row_def answers_arrive_def)
next
  case (Cons f fs)
  then have nl: "\<not> is_lost f" and fs: "filter is_lost fs = []"
    using assms(2) by (auto simp: answers_arrive_def split: if_splits)
  show ?thesis
  proof (cases f)
    case (LostAnswer e)
    then show ?thesis using nl by simp
  qed (use Cons fs assms(1) in \<open>auto simp: insert_photo_def next_fault_def record_call_def
         answer_def refuse_def Let_def new_photo_row_def answers_arrive_def\<close>)
qed


subsection \<open>The stages of \<open>uploadPhoto\<close>\<close>

lemma count_stage:
  assumes "withRetry (select_photo_ids u) m w = (x, w')"
  shows "photos w' = photos w \<and> objects w' = objects w \<and> publicUrl w' = publicUrl w
         \<and> filter is_write (calls w') = filter is_write (calls w)
         \<and> (\<forall>r. x = Inr r \<and> error r = None \<longrightarrow>
               data r = Some (take 10 (map photo_id (owner_photos u w))))"
proof -
  let ?P = "\<lambda>v. photos v = photos w \<and> objects v = objects w \<and> publicUrl v = publicUrl w
                \<and> filter is_write (calls v) = filter is_write (calls w)"
  have "(\<exists>e. x = Inl e \<and> ?P w')
      \<or> (\<exists>r w1. x = Inr r \<and> ?P w1 \<and> select_photo_ids u w1 = (Inr r, w'))"
  proof (rule withRetry_cases [where P = ?P, OF _ _ _ assms])
    show "?P w" by simp
  next
    fix d v assume "?P v" then show "?P (sleep d v)" by simp
  next
    fix v e v' assume "?P v" "select_photo_ids u v = (Inl e, v')"
    then show "?P v'" using select_photo_ids_effect [of u v "Inl e" v'] by simp
  qed
  then show ?thesis
  proof (elim disjE exE conjE)
    fix e assume "x = Inl e" "photos w' = photos w" "objects w' = objects w"
      "publicUrl w' = publicUrl w" "filter is_write (calls w') = filter is_write (calls w)"
    then show ?thesis by simp
  next
    fix r w1 assume a: "x = Inr r" "photos w1 = photos w" "objects w1 = objects w"
      "publicUrl w1 = publicUrl w" "filter is_write (calls w1) = filter is_write (calls w)"
      "select_photo_ids u w1 = (Inr r, w')"
    have "owner_photos u w1 = owner_photos u w" using a(2) by (simp add: owner_photos_def)
    then show ?thesis using select_photo_ids_effect [OF a(6)] a by simp
  qed
qed

text \<open>Retries keep the backend one on which no answer is lost.\<close>

lemma withRetry_arrive:
  assumes step: "\<And>v. answers_arrive v \<Longrightarrow> answers_arrive (snd (operation v))"
      and "answers_arrive w"
  shows "answers_arrive (snd (withRetry operation m w))"
proof -
  obtain x w' where st: "withRetry operation m w = (x, w')"
    by (cases "withRetry operation m w")
  have "(\<exists>e. x = Inl e \<and> answers_arrive w')
      \<or> (\<exists>r w1. x = Inr r \<and> answers_arrive w1 \<and> operation w1 = (Inr r, w'))"
  proof (rule withRetry_cases [where P = answers_arrive, OF _ _ assms(2) st])
    fix v e v' assume "answers_arrive v" "operation v = (Inl e, v')"
    then show "answers_arrive v'" using step [of v] by simp
  next
    fix d v assume "answers_arrive v" then show "answers_arrive (sleep d v)" by simp
  qed
  then have "answers_arrive w'" using step by fastforce
  then show ?thesis using st by simp
qed

lemma upload_stage:
  assumes "withRetry (storage_upload k) m w = (x, w')"
  shows "photos w' = photos w \<and> publicUrl w' = publicUrl w"
proof -
  let ?P = "\<lambda>v. photos v = photos w \<and> publicUrl v = publicUrl w"
  have "(\<exists>e. x = Inl e \<and> ?P w')
      \<or> (\<exists>r w1. x = Inr r \<and> ?P w1 \<and> storage_upload k w1 = (Inr r, w'))"
  proof (rule withRetry_cases [where P = ?P, OF _ _ _ assms])
    show "?P w" by simp
  next
    fix d v assume "?P v" then show "?P (sleep d v)" by simp
  next
    fix v e v' assume "?P v" "storage_upload k v = (Inl e, v')"
    then show "?P v'" using storage_upload_effect [of k v "Inl e" v'] by simp
  qed
  then show ?thesis using storage_upload_effect by fastforce
qed

lemma insert_stage:
  assumes "withRetry (insert_photo u url) m w = (x, w')" and "answers_arrive w"
  shows "answers_arrive w'
       \<and> (photos w' = photos w
          \<or> (\<exists>row. takenbyuserId row = u \<and> photos w' = photos w @ [row]))"
proof -
  let ?P = "\<lambda>v. answers_arrive v \<and> photos v = photos w"
  have "(\<exists>e. x = Inl e \<and> ?P w')
      \<or> (\<exists>r w1. x = Inr r \<and> ?P w1 \<and> insert_photo u url w1 = (Inr r, w'))"
  proof (rule withRetry_cases [where P = ?P, OF _ _ _ assms(1)])
    show "?P w" using assms(2) by simp
  next
    fix d v assume "?P v" then show "?P (sleep d v)" by simp
  next
    fix v e v' assume "?P v" "insert_photo u url v = (Inl e, v')"
    then show "?P v'" using insert_photo_effect [of u url v "Inl e" v'] by simp
  qed
  then show ?thesis
  proof (elim disjE exE conjE)
    fix e assume "x = Inl e" "answers_arrive w'" "photos w' = photos w"
    then show ?thesis by simp
  next
    fix r w1 assume "x = Inr r" "answers_arrive w1" "photos w1 = photos w"
      "insert_photo u url w1 = (Inr r, w')"
    then show ?thesis using insert_photo_effect [of u url w1 "Inr r" w'] by auto
  qed
qed

lemma after_insert_photos:
  "photos (snd (after_insert k r w)) = photos w"
proof (cases "error r")
  case None
  then show ?thesis by (cases "data r") (simp_all add: after_insert_def)
next
  case (Some dbError)
  obtain y w1 where rm: "storage_remove k w = (y, w1)" by (cases "storage_remove k w")
  then show ?thesis using Some storage_remove_effect [OF rm] by (simp add: after_insert_def)
qed

lemma after_insert_arrive:
  "answers_arrive w \<Longrightarrow> answers_arrive (snd (after_insert k r w))"
proof (cases "error r")
  case None
  assume "answers_arrive w"
  then show ?thesis using None by (cases "data r") (simp_all add: after_insert_def)
next
  case (Some dbError)
  assume "answers_arrive w"
  then show ?thesis using Some storage_remove_arrive [of w k]
    by (cases "storage_remove k w") (simp add: after_insert_def)
qed

lemma after_upload_photos:
  assumes "answers_arrive w"
  shows "answers_arrive (snd (after_upload k u w))
   \<and> (photos (snd (after_upload k u w)) = photos w
      \<or> (\<exists>row. takenbyuserId row = u \<and> photos (snd (after_upload k u w)) = photos w @ [row]))"
proof (cases "publicUrl w k = []")
  case True
  then show ?thesis using assms by (simp add: after_upload_def)
next
  case False
  obtain x w1 where st: "withRetry (insert_photo u (publicUrl w k)) 2 w = (x, w1)"
    by (cases "withRetry (insert_photo u (publicUrl w k)) 2 w")
  note ins = insert_stage [OF st assms]
  have "photos (snd (after_upload k u w)) = photos w1"
    using False st by (cases x) (simp_all add: after_upload_def after_insert_photos)
  moreover have "answers_arrive (snd (after_upload k u w))"
    using False st ins after_insert_arrive [of w1 k]
    by (cases x) (simp_all add: after_upload_def)
  ultimately show ?thesis using ins by simp
qed

lemma after_count_photos:
  assumes "answers_arrive w"
  shows "answers_arrive (snd (after_count f u org w))
   \<and> (photos (snd (after_count f u org w)) = photos w
      \<or> (\<exists>row. takenbyuserId row = u \<and> photos (snd (after_count f u org w)) = photos w @ [row]))"
proof -
  define k where "k = generateFileName (now w) org u (file_name f)"
  obtain x w1 where st: "withRetry (storage_upload k) 2 w = (x, w1)"
    by (cases "withRetry (storage_upload k) 2 w")
  have same: "photos w1 = photos w" using upload_stage [OF st] by simp
  have arr: "answers_arrive w1"
    using withRetry_arrive [of "storage_upload k" w 2, OF storage_upload_arrive assms] st
    by simp
  have eq: "after_count f u org w =
      (case x of Inl thrown \<Rightarrow> (Failure ''An unexpected error occurred during upload'', w1)
       | Inr r \<Rightarrow>
          (case error r of
             Some uploadError \<Rightarrow> (Failure ''Failed to upload photo to storage'', w1)
           | None \<Rightarrow>
               (case data r of
                  None \<Rightarrow> (Failure ''An unexpected error occurred during upload'', w1)
                | Some uploadData \<Rightarrow> after_upload k u w1)))"
    using st by (simp add: after_count_def k_def [symmetric] Let_def)
  have "snd (after_count f u org w) = w1
      \<or> snd (after_count f u org w) = snd (after_upload k u w1)"
    unfolding eq by (simp split: sum.split option.split)
  then show ?thesis using after_upload_photos [OF arr, of k u] same arr by auto
qed

lemma uploadPhoto_photos:
  assumes "answers_arrive w"
  shows "answers_arrive (snd (uploadPhoto f u org w))
   \<and> (photos (snd (uploadPhoto f u org w)) = photos w
      \<or> (length (owner_photos u w) < MAX_PHOTOS_PER_USER
          \<and> (\<exists>row. takenbyuserId row = u
                \<and> photos (snd (uploadPhoto f u org w)) = photos w @ [row])))"
proof -
  obtain x w1 where st: "withRetry (select_photo_ids u) 2 w = (x, w1)"
    by (cases "withRetry (select_photo_ids u) 2 w")
  note c = count_stage [OF st]
  have arr: "answers_arrive w1"
    using withRetry_arrive [of "select_photo_ids u" w 2, OF select_photo_ids_arrive assms] st
    by simp
  show ?thesis
  proof (cases "\<not> startsWith (file_type f) ''image/'' \<or> MAX_FILE_SIZE < file_size f")
    case True
    then have "snd (uploadPhoto f u org w) = w" by (auto simp: uploadPhoto_def)
    then show ?thesis using assms by simp
  next
    case valid: False
    show ?thesis
    proof (cases x)
      case (Inl e)
      then have "snd (uploadPhoto f u org w) = w1" using valid st by (simp add: uploadPhoto_def)
      then show ?thesis using c arr by simp
    next
      case (Inr r)
      show ?thesis
      proof (cases "error r = None \<and> \<not> (case data r of None \<Rightarrow> False
                      | Some xs \<Rightarrow> MAX_PHOTOS_PER_USER \<le> length xs)")
        case False
        then have "snd (uploadPhoto f u org w) = w1" using valid st Inr
          by (auto simp: uploadPhoto_def split: option.splits)
        then show ?thesis using c arr by simp
      next
        case True
        then have go: "snd (uploadPhoto f u org w) = snd (after_count f u org w1)"
          using valid st Inr by (auto simp: uploadPhoto_def split: option.splits)
        have "data r = Some (take 10 (map photo_id (owner_photos u w)))"
          using c Inr True by simp
        then have "length (owner_photos u w) < MAX_PHOTOS_PER_USER"
          using True by (simp add: MAX_PHOTOS_PER_USER_def)
        then show ?thesis using after_count_photos [OF arr, of f u org] go c by auto
      qed
    qed
  qed
qed


lemma uploadPhoto_quota_step:
  assumes "\<forall>m. length (owner_photos m w) \<le> MAX_PHOTOS_PER_USER" and "answers_arrive w"
  shows "length (owner_photos m (snd (uploadPhoto f u org w))) \<le> MAX_PHOTOS_PER_USER"
  using uploadPhoto_photos [OF assms(2), of f u org]
proof (elim disjE conjE exE)
  assume "photos (snd (uploadPhoto f u org w)) = photos w"
  then show ?thesis using assms by (simp add: owner_photos_def)
next
  fix row
  assume lt: "length (owner_photos u w) < MAX_PHOTOS_PER_USER"
     and own: "takenbyuserId row = u"
     and app: "photos (snd (uploadPhoto f u org w)) = photos w @ [row]"
  show ?thesis
  proof (cases "m = u")
    case True
    then show ?thesis using lt own app by (simp add: owner_photos_def)
  next
    case False
    then show ?thesis using assms own app by (simp add: owner_photos_def)
  qed
qed

text \<open>
  On a backend on which no answer is lost the quota is an invariant of every sequence of
  uploads, whatever else fails.
\<close>

lemma run_uploads_quota:
  "\<forall>m. length (owner_photos m w) \<le> MAX_PHOTOS_PER_USER \<Longrightarrow> answers_arrive w \<Longrightarrow>
   \<forall>m. length (owner_photos m (run_uploads cs w)) \<le> MAX_PHOTOS_PER_USER"
proof (induction cs arbitrary: w)
  case Nil
  then show ?case by simp
next
  case (Cons c cs)
  obtain f u org where c: "c = (f, u, org)" by (cases c)
  have "\<forall>m. length (owner_photos m (snd (uploadPhoto f u org w))) \<le> MAX_PHOTOS_PER_USER"
    using uploadPhoto_quota_step [OF Cons.prems] by blast
  moreover have "answers_arrive (snd (uploadPhoto f u org w))"
    using uploadPhoto_photos [OF Cons.prems(2)] by blast
  ultimately show ?case using Cons.IH by (simp add: c)
qed

lemma uploadPhoto_at_quota:
  assumes full: "MAX_PHOTOS_PER_USER \<le> length (owner_photos u w)"
  shows "(\<exists>msg. fst (uploadPhoto f u org w) = Failure msg)
       \<and> photos (snd (uploadPhoto f u org w)) = photos w
       \<and> objects (snd (uploadPhoto f u org w)) = objects w
       \<and> filter is_write (calls (snd (uploadPhoto f u org w))) = filter is_write (calls w)"
proof -
  obtain x w1 where st: "withRetry (select_photo_ids u) 2 w = (x, w1)"
    by (cases "withRetry (select_photo_ids u) 2 w")
  note c = count_stage [OF st]
  have eq: "uploadPhoto f u org w =
     (if \<not> startsWith (file_type f) ''image/'' then (Failure ''File must be an image'', w)
      else if file_size f > MAX_FILE_SIZE then (Failure ''File size must be less than 10MB'', w)
      else
        (case x of Inl thrown \<Rightarrow> (Failure ''An unexpected error occurred during upload'', w1)
         | Inr r \<Rightarrow>
             (case error r of
                Some countError \<Rightarrow> (Failure ''Failed to check existing photos'', w1)
              | None \<Rightarrow>
                  (Failure (''Maximum of '' @ string_of_nat MAX_PHOTOS_PER_USER
                                 @ '' photos allowed per member''), w1))))"
  proof (cases x)
    case (Inl e)
    then show ?thesis using st by (simp add: uploadPhoto_def)
  next
    case (Inr r)
    show ?thesis
    proof (cases "error r")
      case (Some e)
      then show ?thesis using st Inr by (simp add: uploadPhoto_def)
    next
      case None
      then have "data r = Some (take 10 (map photo_id (owner_photos u w)))"
        using c Inr by simp
      moreover have "MAX_PHOTOS_PER_USER \<le> length (take 10 (map photo_id (owner_photos u w)))"
        using full by (simp add: MAX_PHOTOS_PER_USER_def)
      ultimately show ?thesis using st Inr None by (simp add: uploadPhoto_def)
    qed
  qed
  show ?thesis unfolding eq using c by (simp split: sum.split option.split)
qed

lemma uploadPhoto_quota_message:
  assumes full: "MAX_PHOTOS_PER_USER \<le> length (owner_photos u w)"
      and img: "startsWith (file_type f) ''image/''"
      and small: "file_size f \<le> MAX_FILE_SIZE"
      and ok: "fst (next_fault w) \<in> {NoFault, Late}"
  shows "fst (uploadPhoto f u org w) = Failure ''Maximum of 5 photos allowed per member''"
proof -
  have nf: "fst (next_fault (record_call (SelectPhotoIds u) w)) \<in> {NoFault, Late}"
    using ok by (simp add: next_fault_def record_call_def split: list.splits)
  obtain x w1 where sel: "select_photo_ids u w = (x, w1)" by (cases "select_photo_ids u w")
  have "\<exists>r. x = Inr r \<and> error r = None"
    using sel nf
    by (auto simp: select_photo_ids_def answer_def split: prod.splits fault.splits)
  then obtain r where r: "x = Inr r" "error r = None" by blast
  have st: "withRetry (select_photo_ids u) 2 w = (Inr r, w1)"
    unfolding withRetry_def using sel r by (subst withRetry_loop.simps) simp
  have "data r = Some (take 10 (map photo_id (owner_photos u w)))"
    using count_stage [OF st] r by simp
  moreover have "MAX_PHOTOS_PER_USER \<le> length (take 10 (map photo_id (owner_photos u w)))"
    using full by (simp add: MAX_PHOTOS_PER_USER_def)
  ultimately show ?thesis using st r img small
    by (simp add: uploadPhoto_def MAX_PHOTOS_PER_USER_def string_of_nat.simps [of 5])
qed



subsection \<open>Storage keys\<close>

lemma string_of_nat_digits: "set (string_of_nat n) \<subseteq> set ''0123456789''"
proof (induction n rule: string_of_nat.induct)
  case (1 n)
  have d: "\<And>k. k < 10 \<Longrightarrow> ''0123456789'' ! k \<in> set ''0123456789''"
    by (rule nth_mem) simp
  show ?case
  proof (cases "n < 10")
    case True
    then show ?thesis using d [of n] by (subst string_of_nat.simps) simp
  next
    case False
    have "n mod 10 < 10" by simp
    then show ?thesis using False "1.IH" d [of "n mod 10"]
      by (subst string_of_nat.simps) simp
  qed
qed

lemma digit_in_name_class: "c \<in> set ''0123456789'' \<Longrightarrow> in_name_class c"
  by (auto simp: in_name_class_def)

text \<open>
  Claim C9, as the code has it. The storage key is
  \<open>{organizationId}/{ownerMemberId}/{unixTimestampMillis}_{cleanName}\<close>, where \<open>cleanName\<close> is
  the original file name with every character outside \<open>[A-Za-z0-9.-]\<close> replaced by an
  underscore, not removed: it is as long as the original name, agrees with it wherever the
  original character is in the class, and the name segment after the last slash has only
  characters of the class and underscores.
\<close>

theorem generateFileName_sanitized:
  "generateFileName t org uid name
     = org @ ''/'' @ uid @ ''/'' @ string_of_nat t @ ''_'' @ cleanName name
   \<and> length (cleanName name) = length name
   \<and> (\<forall>i<length name. cleanName name ! i
          = (if in_name_class (name ! i) then name ! i else CHR ''_''))
   \<and> (\<forall>c\<in>set (string_of_nat t @ ''_'' @ cleanName name). in_name_class c \<or> c = CHR ''_'')"
proof -
  have "\<forall>c\<in>set (string_of_nat t). in_name_class c"
    using string_of_nat_digits [of t] digit_in_name_class by blast
  moreover have "\<forall>c\<in>set (cleanName name). in_name_class c \<or> c = CHR ''_''"
    by (auto simp: cleanName_def)
  ultimately show ?thesis
    by (auto simp: generateFileName_def cleanName_def)
qed

theorem generateFileName_sanitized_witness:
  "generateFileName 1719700000000 ''org1'' ''u1'' ''my photo.jpg''
     = ''org1/u1/1719700000000_my_photo.jpg''
   \<and> (2::nat) < length ''my photo.jpg'' \<and> cleanName ''my photo.jpg'' ! 2 = CHR ''_''
   \<and> CHR ''j'' \<in> set (string_of_nat 1719700000000 @ ''_'' @ cleanName ''my photo.jpg'')
   \<and> in_name_class CHR ''j''"
  using generateFileName_sanitized [of 1719700000000 "''org1''" "''u1''" "''my photo.jpg''"]
  by (simp add: cleanName_def in_name_class_def string_of_nat.simps)

text \<open>
  Claim C9 as it is written fails: the key of \<open>my photo.jpg\<close> keeps an underscore where the
  space was, while stripping would give \<open>myphoto.jpg\<close>.
\<close>

theorem generateFileName_strips_counterexample:
  "generateFileName 1719700000000 ''org1'' ''u1'' ''my photo.jpg''
     \<noteq> ''org1/u1/'' @ string_of_nat 1719700000000 @ ''_'' @ strip_name ''my photo.jpg''
   \<and> generateFileName 1719700000000 ''org1'' ''u1'' ''my photo.jpg''
     = ''org1/u1/1719700000000_my_photo.jpg''
   \<and> strip_name ''my photo.jpg'' = ''myphoto.jpg''"
  by (simp add: generateFileName_def cleanName_def strip_name_def in_name_class_def
        string_of_nat.simps)

subsection \<open>Validation of the file\<close>

text \<open>
  Claim C7. A file whose type does not start with \<open>image/\<close>, or whose size exceeds
  \<open>MAX_FILE_SIZE\<close> (10 MiB), makes \<open>uploadPhoto\<close> return a failure and leaves the whole state as
  it was: no call is recorded, so there was no count query, no object write and no metadata
  insert.
\<close>

theorem uploadPhoto_rejects_invalid_file:
  assumes "\<not> startsWith (file_type f) ''image/'' \<or> file_size f > MAX_FILE_SIZE"
  shows "uploadPhoto f userId organizationId w =
           (Failure (if \<not> startsWith (file_type f) ''image/'' then ''File must be an image''
                     else ''File size must be less than 10MB''), w)"
  using assms by (auto simp: uploadPhoto_def)

theorem uploadPhoto_rejects_invalid_file_witness:
  "file_size big_file > MAX_FILE_SIZE
   \<and> uploadPhoto big_file ''u1'' ''org1'' empty_backend
       = (Failure ''File size must be less than 10MB'', empty_backend)"
proof -
  have big: "file_size big_file > MAX_FILE_SIZE"
    by (simp add: big_file_def MAX_FILE_SIZE_def)
  have img: "startsWith (file_type big_file) ''image/''"
    by (simp add: big_file_def startsWith_def)
  from uploadPhoto_rejects_invalid_file [of big_file "''u1''" "''org1''" empty_backend] big img
  show ?thesis by simp
qed

subsection \<open>The metadata insert fails\<close>

text \<open>
  When the insert resolves with an error value, the object just written is removed once, and
  the failure of the metadata write is returned whatever the removal answers.
\<close>

lemma after_insert_cleanup:
  assumes "error r = Some dbError"
  shows "fst (after_insert fileName r w) = Failure ''Failed to save photo metadata''"
    and "calls (snd (after_insert fileName r w)) = calls w @ [StorageRemove fileName]"
  using assms
  by (auto simp: after_insert_def storage_remove_def next_fault_def record_call_def
        split: list.splits fault.splits prod.splits)

lemmas upload_eval = uploadPhoto_def after_count_def after_upload_def after_insert_def withRetry_def
  withRetry_loop.simps select_photo_ids_def storage_upload_def insert_photo_def storage_remove_def
  next_fault_def record_call_def sleep_def answer_def refuse_def startsWith_def MAX_FILE_SIZE_def
  MAX_PHOTOS_PER_USER_def generateFileName_def cleanName_def in_name_class_def string_of_nat.simps
  fresh_photo_id_def new_photo_row_def Let_def


subsection \<open>The quota\<close>

text \<open>
  The quota at work when every call is answered: a member with five photos is refused after
  the count query alone, and of two uploads of a member with four photos the first adds a
  row and the second is refused.
\<close>

lemma upload_quota_example:
  "answers_arrive full_backend
   \<and> uploadPhoto photo_file ''u1'' ''org1'' full_backend
       = (Failure ''Maximum of 5 photos allowed per member'',
          full_backend\<lparr>calls := [SelectPhotoIds ''u1'']\<rparr>)
   \<and> answers_arrive four_backend
   \<and> length (owner_photos ''u1''
         (run_uploads [(photo_file, ''u1'', ''org1''), (photo_file, ''u1'', ''org1'')]
            four_backend)) = 5"
  by (simp add: upload_eval owner_photos_def photo_file_def full_backend_def four_backend_def
        empty_backend_def example_row_def answers_arrive_def)


section \<open>Verification: the retry wrappers\<close>

lemma delays_append [simp]: "delays (xs @ ys) = delays xs @ delays ys"
  by (induction xs rule: delays.induct) simp_all

lemma delays_sleep [simp]: "delays (calls (sleep d w)) = delays (calls w) @ [d]"
  by (simp add: sleep_def record_call_def)

lemma delays_timer_fires [simp]: "calls (timer_fires ms w) = calls w"
  by (simp add: timer_fires_def)

lemma linear_is_exponential:
  "1 \<le> i \<Longrightarrow> min (1000 * i) 2000 = exponential_backoff 1000 2000 i"
proof (cases "i = 1")
  case True
  then show ?thesis by (simp add: exponential_backoff_def)
next
  case False
  assume "1 \<le> i"
  with False obtain j where j: "i = Suc (Suc j)" by (metis One_nat_def Suc_le_D le_antisym not_less_eq_eq)
  have "(2::nat) \<le> 2 ^ Suc j" by simp
  then have "(2000::nat) \<le> 1000 * 2 ^ Suc j" by simp
  then show ?thesis by (simp add: exponential_backoff_def j)
qed

lemma backoff_is_exponential:
  "1 \<le> i \<Longrightarrow> backoff_delay i = exponential_backoff 1000 3000 i"
  by (simp add: backoff_delay_def exponential_backoff_def)

lemma withRetry_loop_delays:
  assumes "\<And>v. delays (calls (snd (operation v))) = delays (calls v)"
  shows "\<exists>k. a \<le> k \<and> (k \<le> m \<or> k = a)
           \<and> delays (calls (snd (withRetry_loop operation m a l w)))
               = delays (calls w) @ map (\<lambda>i. min (1000 * i) 2000) [a..<k]"
  using assms
proof (induction operation m a l w rule: withRetry_loop.induct)
  case (1 operation m a l w)
  note quiet = "1.prems"
  show ?case
  proof (cases "a \<le> m")
    case False
    then have "delays (calls (snd (withRetry_loop operation m a l w)))
               = delays (calls w) @ map (\<lambda>i. min (1000 * i) 2000) [a..<a]"
      by (simp add: withRetry_loop.simps)
    then show ?thesis by blast
  next
    case True
    obtain x v where op: "operation w = (x, v)" by (cases "operation w")
    have dv: "delays (calls v) = delays (calls w)" using quiet [of w] op by simp
    show ?thesis
    proof (cases x)
      case (Inr r)
      then have "delays (calls (snd (withRetry_loop operation m a l w)))
               = delays (calls w) @ map (\<lambda>i. min (1000 * i) 2000) [a..<a]"
        using True op dv by (simp add: withRetry_loop.simps [of operation m a])
      then show ?thesis by blast
    next
      case (Inl e)
      let ?v = "if a < m then sleep (min (1000 * a) 2000) v else v"
      have unfold: "withRetry_loop operation m a l w
                    = withRetry_loop operation m (a + 1) (Some e) ?v"
        using True op Inl by (simp add: withRetry_loop.simps [of operation m a])
      from "1.IH" [OF True op [symmetric] Inl quiet]
      obtain k where k: "a + 1 \<le> k" "k \<le> m \<or> k = a + 1"
        "delays (calls (snd (withRetry_loop operation m (a + 1) (Some e) ?v)))
           = delays (calls ?v) @ map (\<lambda>i. min (1000 * i) 2000) [a + 1..<k]"
        by blast
      show ?thesis
      proof (cases "a < m")
        case True
        have "[a..<k] = a # [a + 1..<k]" using k(1) by (simp add: upt_conv_Cons)
        then have "delays (calls (snd (withRetry_loop operation m a l w)))
            = delays (calls w) @ map (\<lambda>i. min (1000 * i) 2000) [a..<k]"
          using unfold k(3) True dv by simp
        moreover have "a \<le> k" "k \<le> m \<or> k = a" using k True by auto
        ultimately show ?thesis by blast
      next
        case False
        then have "k = a + 1" using k \<open>a \<le> m\<close> by auto
        then have "delays (calls (snd (withRetry_loop operation m a l w)))
            = delays (calls w) @ map (\<lambda>i. min (1000 * i) 2000) [a..<a]"
          using unfold k(3) False dv by simp
        then show ?thesis by blast
      qed
    qed
  qed
qed

lemma withRetry_loop_delays_all_fail:
  assumes "\<And>v. delays (calls (snd (operation v))) = delays (calls v)"
      and "\<And>v. isl (fst (operation v))"
  shows "delays (calls (snd (withRetry_loop operation m a l w)))
           = delays (calls w) @ map (\<lambda>i. min (1000 * i) 2000) [a..<m]"
  using assms
proof (induction operation m a l w rule: withRetry_loop.induct)
  case (1 operation m a l w)
  note quiet = "1.prems"(1) and fails = "1.prems"(2)
  show ?case
  proof (cases "a \<le> m")
    case False
    then show ?thesis by (simp add: withRetry_loop.simps)
  next
    case True
    obtain x v where op: "operation w = (x, v)" by (cases "operation w")
    have dv: "delays (calls v) = delays (calls w)" using quiet [of w] op by simp
    obtain e where Inl: "x = Inl e" using fails [of w] op by (cases x) simp_all
    let ?v = "if a < m then sleep (min (1000 * a) 2000) v else v"
    have unfold: "withRetry_loop operation m a l w
                  = withRetry_loop operation m (a + 1) (Some e) ?v"
      using True op Inl by (simp add: withRetry_loop.simps [of operation m a])
    note ih = "1.IH" [OF True op [symmetric] Inl quiet fails]
    show ?thesis
    proof (cases "a < m")
      case True
      have "[a..<m] = a # [a + 1..<m]" using True by (simp add: upt_conv_Cons)
      then show ?thesis using unfold ih True dv by simp
    next
      case False
      then show ?thesis using unfold ih dv by simp
    qed
  qed
qed


lemma resilient_loop_done:
  "\<not> a \<le> m \<Longrightarrow> resilient_loop fetchFn name m t a l w = (Inl l, w)"
  by (subst resilient_loop.simps) simp

lemma resilient_loop_fulfilled:
  "a \<le> m \<Longrightarrow> fetchFn w = (Fulfilled r, v) \<Longrightarrow>
   resilient_loop fetchFn name m t a l w = (Inr r, v)"
  by (subst resilient_loop.simps) simp

lemma resilient_loop_failed:
  assumes "a \<le> m" "fetchFn w = (x, v)" "attempt_error name t x v = (err, v')"
      and "\<forall>r. x \<noteq> Fulfilled r"
  shows "resilient_loop fetchFn name m t a l w =
     (if gives_up err a m then (Inl (Some err), v')
      else resilient_loop fetchFn name m t (a + 1) (Some err) (sleep (backoff_delay a) v'))"
  using assms
  by (subst resilient_loop.simps)
     (auto simp: attempt_error_def gives_up_def split: settled.splits)

lemma attempt_error_calls:
  "attempt_error name t x v = (err, v') \<Longrightarrow> calls v' = calls v"
  by (auto simp: attempt_error_def split: settled.splits)

lemma resilient_loop_delays:
  assumes quiet: "\<And>v. delays (calls (snd (fetchFn v))) = delays (calls v)"
  shows "\<exists>k. a \<le> k \<and> (k \<le> m \<or> k = a)
           \<and> delays (calls (snd (resilient_loop fetchFn name m t a l w)))
               = delays (calls w) @ map backoff_delay [a..<k]"
proof (induction "Suc m - a" arbitrary: a l w)
  case 0
  then have "\<not> a \<le> m" by simp
  then have "delays (calls (snd (resilient_loop fetchFn name m t a l w)))
               = delays (calls w) @ map backoff_delay [a..<a]"
    by (simp add: resilient_loop_done)
  then show ?case by blast
next
  case (Suc n)
  then have le: "a \<le> m" and n: "n = Suc m - (a + 1)" by simp_all
  obtain x v where op: "fetchFn w = (x, v)" by (cases "fetchFn w")
  have dv: "delays (calls v) = delays (calls w)" using quiet [of w] op by simp
  show ?case
  proof (cases "\<exists>r. x = Fulfilled r")
    case True
    then obtain r where "x = Fulfilled r" by blast
    then have "delays (calls (snd (resilient_loop fetchFn name m t a l w)))
               = delays (calls w) @ map backoff_delay [a..<a]"
      using resilient_loop_fulfilled [where fetchFn = fetchFn and w = w, OF le, of r v] op dv by simp
    then show ?thesis by blast
  next
    case False
    obtain err v' where ae: "attempt_error name t x v = (err, v')"
      by (cases "attempt_error name t x v")
    have dv': "delays (calls v') = delays (calls w)"
      using attempt_error_calls [OF ae] dv by simp
    note step = resilient_loop_failed [where fetchFn = fetchFn and w = w and l = l, OF le op ae]
    show ?thesis
    proof (cases "gives_up err a m")
      case True
      then have "delays (calls (snd (resilient_loop fetchFn name m t a l w)))
               = delays (calls w) @ map backoff_delay [a..<a]"
        using step False dv' by simp
      then show ?thesis by blast
    next
      case nogive: False
      then have lt: "a < m" using le by (auto simp: gives_up_def)
      from Suc.hyps(1) [OF n, of "Some err" "sleep (backoff_delay a) v'"]
      obtain k where k: "a + 1 \<le> k" "k \<le> m \<or> k = a + 1"
        "delays (calls (snd (resilient_loop fetchFn name m t (a + 1) (Some err)
                               (sleep (backoff_delay a) v'))))
           = delays (calls (sleep (backoff_delay a) v')) @ map backoff_delay [a + 1..<k]"
        by blast
      have "[a..<k] = a # [a + 1..<k]" using k(1) by (simp add: upt_conv_Cons)
      then have "delays (calls (snd (resilient_loop fetchFn name m t a l w)))
               = delays (calls w) @ map backoff_delay [a..<k]"
        using step False nogive k(3) dv' by simp
      moreover have "a \<le> k" "k \<le> m \<or> k = a" using k lt by auto
      ultimately show ?thesis by blast
    qed
  qed
qed

lemma resilient_loop_delays_timeouts:
  assumes quiet: "\<And>v. delays (calls (snd (fetchFn v))) = delays (calls v)"
      and pend: "\<And>v. fst (fetchFn v) = Pending"
      and retry: "\<not> js_includes (name @ '' timeout after '' @ string_of_nat t @ ''ms'')
                      ''Auth session missing''"
                 "\<not> js_includes (name @ '' timeout after '' @ string_of_nat t @ ''ms'')
                      ''Invalid JWT''"
  shows "delays (calls (snd (resilient_loop fetchFn name m t a l w)))
           = delays (calls w) @ map backoff_delay [a..<m]"
proof (induction "Suc m - a" arbitrary: a l w)
  case 0
  then have "\<not> a \<le> m" by simp
  then show ?case by (simp add: resilient_loop_done)
next
  case (Suc n)
  then have le: "a \<le> m" and n: "n = Suc m - (a + 1)" by simp_all
  obtain x v where op: "fetchFn w = (x, v)" by (cases "fetchFn w")
  have x: "x = Pending" using pend [of w] op by simp
  have dv: "delays (calls v) = delays (calls w)" using quiet [of w] op by simp
  define err where "err = Error (name @ '' timeout after '' @ string_of_nat t @ ''ms'')"
  have ae: "attempt_error name t x v = (err, timer_fires t v)"
    by (simp add: attempt_error_def x err_def)
  have gu: "gives_up err a m \<longleftrightarrow> a = m"
    using retry by (simp add: gives_up_def err_def Error_def)
  note step = resilient_loop_failed [where fetchFn = fetchFn and w = w and l = l, OF le op ae]
  show ?case
  proof (cases "a = m")
    case True
    then show ?thesis using step gu x dv by simp
  next
    case False
    then have lt: "a < m" using le by simp
    have "[a..<m] = a # [a + 1..<m]" using lt by (simp add: upt_conv_Cons)
    then show ?thesis
      using step gu x dv False
        Suc.hyps(1) [OF n, of "Some err" "sleep (backoff_delay a) (timer_fires t v)"]
      by simp
  qed
qed


lemma map_linear_exponential:
  "map (\<lambda>i. min (1000 * i) 2000) [Suc 0..<k] = map (exponential_backoff 1000 2000) [Suc 0..<k]"
  by (rule map_cong) (simp_all add: linear_is_exponential)

lemma map_backoff_exponential:
  "map backoff_delay [Suc 0..<k] = map (exponential_backoff 1000 3000) [Suc 0..<k]"
  by (rule map_cong) (simp_all add: backoff_is_exponential)

text \<open>
  Claim C4. Whatever the wrapped operation does (as long as it does not itself wait), the
  delays a run of \<open>withRetry\<close> waits are, in order, \<open>min(1000 * 2^(attempt-1), 2000)\<close> for
  \<open>attempt = 1, 2, ...\<close>, and those of the function \<open>createResilientFetch\<close> returns are
  \<open>min(1000 * 2^(attempt-1), 3000)\<close>: the wait after attempt number \<open>attempt\<close> is the
  exponential backoff with base 1000 ms, capped. When every attempt fails, there is one such
  wait after each attempt but the last.
\<close>

theorem retry_delay_exponential:
  assumes "\<And>v. delays (calls (snd (operation v))) = delays (calls v)"
      and "\<And>v. delays (calls (snd (fetchFn v))) = delays (calls v)"
  shows "(\<exists>k\<le>max 1 m. delays (calls (snd (withRetry operation m w)))
            = delays (calls w) @ map (exponential_backoff 1000 2000) [1..<k])
       \<and> (\<exists>k\<le>max 1 m. delays (calls (snd (createResilientFetch fetchFn name m t w)))
            = delays (calls w) @ map (exponential_backoff 1000 3000) [1..<k])
       \<and> ((\<forall>v. isl (fst (operation v))) \<longrightarrow>
            delays (calls (snd (withRetry operation m w)))
              = delays (calls w) @ map (exponential_backoff 1000 2000) [1..<m])
       \<and> ((\<forall>v. fst (fetchFn v) = Pending)
            \<and> \<not> js_includes (name @ '' timeout after '' @ string_of_nat t @ ''ms'')
                  ''Auth session missing''
            \<and> \<not> js_includes (name @ '' timeout after '' @ string_of_nat t @ ''ms'')
                  ''Invalid JWT'' \<longrightarrow>
            delays (calls (snd (createResilientFetch fetchFn name m t w)))
              = delays (calls w) @ map (exponential_backoff 1000 3000) [1..<m])"
proof (intro conjI impI)
  from withRetry_loop_delays [OF assms(1), of 1 m None w]
  obtain k where "1 \<le> k" "k \<le> m \<or> k = 1"
    "delays (calls (snd (withRetry_loop operation m 1 None w)))
       = delays (calls w) @ map (\<lambda>i. min (1000 * i) 2000) [1..<k]"
    by blast
  then have "k \<le> max 1 m \<and> delays (calls (snd (withRetry operation m w)))
       = delays (calls w) @ map (exponential_backoff 1000 2000) [1..<k]"
    by (auto simp: withRetry_def map_linear_exponential)
  then show "\<exists>k\<le>max 1 m. delays (calls (snd (withRetry operation m w)))
       = delays (calls w) @ map (exponential_backoff 1000 2000) [1..<k]"
    by blast
next
  from resilient_loop_delays [of fetchFn 1 m name t None w, OF assms(2)]
  obtain k where "1 \<le> k" "k \<le> m \<or> k = 1"
    "delays (calls (snd (resilient_loop fetchFn name m t 1 None w)))
       = delays (calls w) @ map backoff_delay [1..<k]"
    by blast
  then have "k \<le> max 1 m \<and> delays (calls (snd (createResilientFetch fetchFn name m t w)))
       = delays (calls w) @ map (exponential_backoff 1000 3000) [1..<k]"
    by (auto simp: createResilientFetch_def map_backoff_exponential)
  then show "\<exists>k\<le>max 1 m. delays (calls (snd (createResilientFetch fetchFn name m t w)))
       = delays (calls w) @ map (exponential_backoff 1000 3000) [1..<k]"
    by blast
next
  assume "\<forall>v. isl (fst (operation v))"
  then show "delays (calls (snd (withRetry operation m w)))
              = delays (calls w) @ map (exponential_backoff 1000 2000) [1..<m]"
    using withRetry_loop_delays_all_fail [OF assms(1), of m 1 None w]
    by (simp add: withRetry_def map_linear_exponential)
next
  assume "(\<forall>v. fst (fetchFn v) = Pending)
            \<and> \<not> js_includes (name @ '' timeout after '' @ string_of_nat t @ ''ms'')
                  ''Auth session missing''
            \<and> \<not> js_includes (name @ '' timeout after '' @ string_of_nat t @ ''ms'')
                  ''Invalid JWT''"
  then show "delays (calls (snd (createResilientFetch fetchFn name m t w)))
              = delays (calls w) @ map (exponential_backoff 1000 3000) [1..<m]"
    using resilient_loop_delays_timeouts [of fetchFn name t m 1 None w, OF assms(2)]
    by (simp add: createResilientFetch_def map_backoff_exponential)
qed

theorem retry_delay_exponential_witness:
  "(\<forall>v. delays (calls (snd (always_throws v))) = delays (calls v))
   \<and> (\<forall>v. delays (calls (snd (never_settles v))) = delays (calls v))
   \<and> (\<forall>v. isl (fst (always_throws v)))
   \<and> (\<forall>v. fst (never_settles v) = Pending)
   \<and> \<not> js_includes (''GetCurrentUser'' @ '' timeout after '' @ string_of_nat 4000 @ ''ms'')
           ''Auth session missing''
   \<and> \<not> js_includes (''GetCurrentUser'' @ '' timeout after '' @ string_of_nat 4000 @ ''ms'')
           ''Invalid JWT''
   \<and> delays (calls (snd (withRetry always_throws 4 empty_backend))) = [1000, 2000, 2000]
   \<and> delays (calls (snd (createResilientFetch never_settles ''GetCurrentUser'' 4 4000
                            empty_backend))) = [1000, 2000, 3000]"
proof -
  have a: "\<And>v. delays (calls (snd (always_throws v))) = delays (calls v)"
    and b: "\<And>v. delays (calls (snd (never_settles v))) = delays (calls v)"
    and c: "\<forall>v. isl (fst (always_throws v))"
    and d: "\<forall>v. fst (never_settles v) = Pending"
    by (simp_all add: always_throws_def never_settles_def)
  have e: "\<not> js_includes (''GetCurrentUser'' @ '' timeout after '' @ string_of_nat 4000 @ ''ms'')
           ''Auth session missing''"
    and f: "\<not> js_includes (''GetCurrentUser'' @ '' timeout after '' @ string_of_nat 4000 @ ''ms'')
           ''Invalid JWT''"
    by (simp_all add: string_of_nat.simps startsWith_def)
  have g: "map (exponential_backoff 1000 2000) [1..<4] = [1000, 2000, 2000]"
    and h: "map (exponential_backoff 1000 3000) [1..<4] = [1000, 2000, 3000]"
    by (simp_all add: upt_rec exponential_backoff_def)
  note inst = retry_delay_exponential [of always_throws never_settles 4 empty_backend
         "''GetCurrentUser''" 4000, OF a b]
  have "delays (calls (snd (withRetry always_throws 4 empty_backend)))
          = delays (calls empty_backend) @ map (exponential_backoff 1000 2000) [1..<4]"
    using inst c by blast
  moreover have "delays (calls (snd (createResilientFetch never_settles ''GetCurrentUser'' 4 4000
                            empty_backend)))
          = delays (calls empty_backend) @ map (exponential_backoff 1000 3000) [1..<4]"
    using inst d e f by blast
  moreover have "delays (calls empty_backend) = []" by (simp add: empty_backend_def)
  ultimately show ?thesis using a b c d e f g h by simp
qed

section \<open>Verification: the identity lookup\<close>

lemma resilient_loop_cases:
  assumes att: "\<And>v x v'. P v \<Longrightarrow> fetchFn v = (x, v') \<Longrightarrow> P v'"
      and slp: "\<And>d v. P v \<Longrightarrow> P (sleep d v)"
      and tmr: "\<And>v. P v \<Longrightarrow> P (timer_fires t v)"
      and "P w"
  shows "case resilient_loop fetchFn name m t a l w of
           (Inl e, w') \<Rightarrow> P w'
         | (Inr r, w') \<Rightarrow> (\<exists>w1. P w1 \<and> fetchFn w1 = (Fulfilled r, w'))"
  using \<open>P w\<close>
proof (induction "Suc m - a" arbitrary: a l w)
  case 0
  then have "\<not> a \<le> m" by simp
  then show ?case using "0.prems" by (simp add: resilient_loop_done)
next
  case (Suc n)
  then have le: "a \<le> m" and n: "n = Suc m - (a + 1)" by simp_all
  obtain x v where op: "fetchFn w = (x, v)" by (cases "fetchFn w")
  have Pv: "P v" using att [OF Suc.prems op] .
  show ?case
  proof (cases "\<exists>r. x = Fulfilled r")
    case True
    then obtain r where x: "x = Fulfilled r" by blast
    have "resilient_loop fetchFn name m t a l w = (Inr r, v)"
      using resilient_loop_fulfilled [where fetchFn = fetchFn and w = w, OF le] op x by simp
    then show ?thesis using Suc.prems op x by auto
  next
    case False
    obtain err v' where ae: "attempt_error name t x v = (err, v')"
      by (cases "attempt_error name t x v")
    have Pv': "P v'" using ae Pv tmr by (auto simp: attempt_error_def split: settled.splits)
    note step = resilient_loop_failed [where fetchFn = fetchFn and w = w and l = l, OF le op ae]
    show ?thesis
    proof (cases "gives_up err a m")
      case True
      then show ?thesis using step False Pv' by simp
    next
      case nogive: False
      have "P (sleep (backoff_delay a) v')" using Pv' slp by simp
      from Suc.hyps(1) [OF n this, of "Some err"]
      show ?thesis using step False nogive by simp
    qed
  qed
qed

lemma createResilientFetch_cases:
  assumes "\<And>v x v'. P v \<Longrightarrow> fetchFn v = (x, v') \<Longrightarrow> P v'"
      and "\<And>d v. P v \<Longrightarrow> P (sleep d v)"
      and "\<And>v. P v \<Longrightarrow> P (timer_fires t v)"
      and "P w"
      and "createResilientFetch fetchFn name m t w = (x, w')"
  shows "(\<exists>e. x = Inl e \<and> P w')
       \<or> (\<exists>r w1. x = Inr r \<and> P w1 \<and> fetchFn w1 = (Fulfilled r, w'))"
  using resilient_loop_cases [of P fetchFn t w name m 1 None, OF assms(1,2,3,4)] assms(5)
  by (cases x) (auto simp: createResilientFetch_def)


lemma getUser_effect:
  assumes "getUser v = (x, v')"
  shows "x \<in> insert Pending (set (getUser_replies v))"
    and "set (getUser_replies v') \<subseteq> set (getUser_replies v)"
    and "getSession_replies v' = getSession_replies v"
    and "calls v' = calls v @ [GetUser]"
  using assms by (auto simp: getUser_def record_call_def split: list.splits)

lemma getSession_effect:
  assumes "getSession c v = (x, v')"
  shows "x \<in> insert Pending (set (getSession_replies v))"
    and "set (getSession_replies v') \<subseteq> set (getSession_replies v)"
    and "getUser_replies v' = getUser_replies v"
    and "calls v' = calls v @ [GetSession c]"
  using assms by (auto simp: getSession_def record_call_def split: list.splits)

lemma identity_of_Pending [simp]:
  "identity_of_getUser Pending = None" "identity_of_getSession Pending = None"
  by (simp_all add: identity_of_getUser_def identity_of_getSession_def)

text \<open>What one attempt of the lookup returns, from the two settled results.\<close>

lemma fetchCurrentUser_result:
  assumes "getUser v = (ur, v1)" "getSession ''GetCurrentUser'' v1 = (sr, v2)"
  shows "fetchCurrentUser v =
     (if ur = Pending \<or> sr = Pending then Pending
      else Fulfilled (case identity_of_getUser ur of Some u \<Rightarrow> Some u
                      | None \<Rightarrow> identity_of_getSession sr), v2)"
  using assms by (simp add: fetchCurrentUser_def Let_def split: option.splits)

lemma fetchCurrentUser_effect:
  assumes "fetchCurrentUser v = (x, v')"
  shows "set (getUser_replies v') \<subseteq> set (getUser_replies v)"
    and "set (getSession_replies v') \<subseteq> set (getSession_replies v)"
    and "x = Fulfilled (Some u) \<Longrightarrow>
           Some u \<in> identity_of_getUser ` set (getUser_replies v)
                    \<union> identity_of_getSession ` set (getSession_replies v)"
    and "set (getUser_replies v) \<subseteq> {Pending} \<Longrightarrow> x = Pending"
proof -
  obtain ur v1 where gu: "getUser v = (ur, v1)" by (cases "getUser v")
  obtain sr v2 where gs: "getSession ''GetCurrentUser'' v1 = (sr, v2)"
    by (cases "getSession ''GetCurrentUser'' v1")
  note r = fetchCurrentUser_result [OF gu gs]
  note eu = getUser_effect [OF gu] and es = getSession_effect [OF gs]
  have v': "v' = v2" using r assms by simp
  show "set (getUser_replies v') \<subseteq> set (getUser_replies v)"
    using v' eu(2) es(3) by simp
  show "set (getSession_replies v') \<subseteq> set (getSession_replies v)"
    using v' eu(3) es(2) by simp
  show "set (getUser_replies v) \<subseteq> {Pending} \<Longrightarrow> x = Pending"
    using r assms eu(1) by auto
  show "Some u \<in> identity_of_getUser ` set (getUser_replies v)
                    \<union> identity_of_getSession ` set (getSession_replies v)"
    if "x = Fulfilled (Some u)"
  proof -
    have np: "ur \<noteq> Pending" "sr \<noteq> Pending"
      and res: "(case identity_of_getUser ur of Some u \<Rightarrow> Some u
                 | None \<Rightarrow> identity_of_getSession sr) = Some u"
      using r assms that by (auto split: if_splits)
    have "ur \<in> set (getUser_replies v)" "sr \<in> set (getSession_replies v)"
      using np eu(1,3) es(1) by auto
    then show ?thesis using res by (cases "identity_of_getUser ur") force+
  qed
qed

lemma sleep_replies [simp]:
  "getUser_replies (sleep d v) = getUser_replies v"
  "getSession_replies (sleep d v) = getSession_replies v"
  by (simp_all add: sleep_def record_call_def)

lemma timer_fires_replies [simp]:
  "getUser_replies (timer_fires t v) = getUser_replies v"
  "getSession_replies (timer_fires t v) = getSession_replies v"
  by (simp_all add: timer_fires_def)


lemma getCurrentUser_timeouts:
  assumes "set (getUser_replies w) \<subseteq> {Pending}"
  shows "fst (getCurrentUser w) = Inr None"
proof -
  obtain x w' where c: "createResilientFetch fetchCurrentUser ''GetCurrentUser'' 2 4000 w = (x, w')"
    by (cases "createResilientFetch fetchCurrentUser ''GetCurrentUser'' 2 4000 w")
  let ?P = "\<lambda>v. set (getUser_replies v) \<subseteq> {Pending}"
  have "(\<exists>e. x = Inl e \<and> ?P w')
       \<or> (\<exists>r w1. x = Inr r \<and> ?P w1 \<and> fetchCurrentUser w1 = (Fulfilled r, w'))"
  proof (rule createResilientFetch_cases [where P = ?P, OF _ _ _ assms c])
    fix v x v' assume "?P v" "fetchCurrentUser v = (x, v')"
    then show "?P v'" using fetchCurrentUser_effect(1) [of v x v'] by blast
  qed simp_all
  then have "\<exists>e. x = Inl e" using fetchCurrentUser_effect(4) by fastforce
  then show ?thesis using c by (auto simp: getCurrentUser_def)
qed


lemmas lookup_eval = getCurrentUser_def createResilientFetch_def resilient_loop.simps
  fetchCurrentUser_def getUser_def getSession_def identity_of_getUser_def
  identity_of_getSession_def record_call_def sleep_def timer_fires_def backoff_delay_def
  Error_def startsWith_def string_of_nat.simps Let_def empty_backend_def



lemma reply_at_tl: "reply_at (tl rs) 0 = reply_at rs 1"
proof (cases rs)
  case Nil
  then show ?thesis by (simp add: reply_at_def)
next
  case (Cons r rest)
  then show ?thesis by (cases rest) (simp_all add: reply_at_def)
qed

text \<open>One attempt: the two calls it sends, the answers it uses up, and what it settles to.\<close>

lemma fetchCurrentUser_attempt:
  "fst (fetchCurrentUser v)
     = (if reply_at (getUser_replies v) 0 = Pending \<or> reply_at (getSession_replies v) 0 = Pending
        then Pending
        else Fulfilled (case identity_of_getUser (reply_at (getUser_replies v) 0) of
                          Some u \<Rightarrow> Some u
                        | None \<Rightarrow> identity_of_getSession (reply_at (getSession_replies v) 0)))"
  "getUser_replies (snd (fetchCurrentUser v)) = tl (getUser_replies v)"
  "getSession_replies (snd (fetchCurrentUser v)) = tl (getSession_replies v)"
  "calls (snd (fetchCurrentUser v)) = calls v @ [GetUser, GetSession ''GetCurrentUser'']"
  "now (snd (fetchCurrentUser v)) = now v"
proof -
  obtain ur v1 where gu: "getUser v = (ur, v1)" by (cases "getUser v")
  obtain sr v2 where gs: "getSession ''GetCurrentUser'' v1 = (sr, v2)"
    by (cases "getSession ''GetCurrentUser'' v1")
  note r = fetchCurrentUser_result [OF gu gs]
  have u: "ur = reply_at (getUser_replies v) 0" "getUser_replies v1 = tl (getUser_replies v)"
    "getSession_replies v1 = getSession_replies v" "calls v1 = calls v @ [GetUser]"
    "now v1 = now v"
    using gu by (auto simp: getUser_def record_call_def reply_at_def split: list.splits)
  have s: "sr = reply_at (getSession_replies v1) 0"
    "getSession_replies v2 = tl (getSession_replies v1)"
    "getUser_replies v2 = getUser_replies v1"
    "calls v2 = calls v1 @ [GetSession ''GetCurrentUser'']" "now v2 = now v1"
    using gs by (auto simp: getSession_def record_call_def reply_at_def split: list.splits)
  have sr: "sr = reply_at (getSession_replies v) 0" using s(1) u(3) by simp
  show "fst (fetchCurrentUser v)
     = (if reply_at (getUser_replies v) 0 = Pending \<or> reply_at (getSession_replies v) 0 = Pending
        then Pending
        else Fulfilled (case identity_of_getUser (reply_at (getUser_replies v) 0) of
                          Some u \<Rightarrow> Some u
                        | None \<Rightarrow> identity_of_getSession (reply_at (getSession_replies v) 0)))"
    using r unfolding u(1) sr by simp
  show "getUser_replies (snd (fetchCurrentUser v)) = tl (getUser_replies v)"
    using r u s by simp
  show "getSession_replies (snd (fetchCurrentUser v)) = tl (getSession_replies v)"
    using r u s by simp
  show "calls (snd (fetchCurrentUser v)) = calls v @ [GetUser, GetSession ''GetCurrentUser'']"
    using r u s by simp
  show "now (snd (fetchCurrentUser v)) = now v"
    using r u s by simp
qed

text \<open>An attempt of the lookup that has not settled when its timer fires.\<close>

lemma lookup_attempt_timeout:
  assumes "fetchCurrentUser v = (Pending, v')"
  shows "attempt_error ''GetCurrentUser'' 4000 (Pending :: User option settled) v'
           = (Error ''GetCurrentUser timeout after 4000ms'', timer_fires 4000 v')"
    and "\<not> gives_up (Error ''GetCurrentUser timeout after 4000ms'') 1 2"
    and "gives_up (Error ''GetCurrentUser timeout after 4000ms'') 2 2"
  by (simp_all add: attempt_error_def gives_up_def Error_def string_of_nat.simps startsWith_def)

text \<open>
  Claim C5, as the code has it. The lookup makes at most two attempts. Each attempt sends
  both calls and waits for both: when both have settled before the timer of the attempt fires
  (4 s), the lookup ends with the identity of \<open>getUser\<close> when that call yields one without
  error, else with the identity of \<open>getSession\<close> when that call yields one without error,
  else with \<open>null\<close>, so that an identity of either call is not given up for an error or a
  rejection of the other. When one of the two calls has not settled as the timer fires, the
  attempt fails, whatever the other call has yielded: after the first attempt the lookup
  waits 1 s and makes the second, and after the second it returns \<open>null\<close>. The calls sent and
  the time spent in timeouts and waits are those of the attempts made.
\<close>

theorem getCurrentUser_waits_for_both:
  "(let ur1 = reply_at (getUser_replies w) 0; sr1 = reply_at (getSession_replies w) 0;
        ur2 = reply_at (getUser_replies w) 1; sr2 = reply_at (getSession_replies w) 1
    in fst (getCurrentUser w)
         = Inr (if ur1 \<noteq> Pending \<and> sr1 \<noteq> Pending
                then (case identity_of_getUser ur1 of Some u \<Rightarrow> Some u
                      | None \<Rightarrow> identity_of_getSession sr1)
                else if ur2 \<noteq> Pending \<and> sr2 \<noteq> Pending
                then (case identity_of_getUser ur2 of Some u \<Rightarrow> Some u
                      | None \<Rightarrow> identity_of_getSession sr2)
                else None)
     \<and> calls (snd (getCurrentUser w))
         = calls w @ (if ur1 \<noteq> Pending \<and> sr1 \<noteq> Pending
                      then [GetUser, GetSession ''GetCurrentUser'']
                      else [GetUser, GetSession ''GetCurrentUser'', Sleep 1000,
                            GetUser, GetSession ''GetCurrentUser''])
     \<and> now (snd (getCurrentUser w))
         = now w + (if ur1 \<noteq> Pending \<and> sr1 \<noteq> Pending then 0
                    else if ur2 \<noteq> Pending \<and> sr2 \<noteq> Pending then 5000 else 9000))"
proof -
  define ur1 where "ur1 = reply_at (getUser_replies w) 0"
  define sr1 where "sr1 = reply_at (getSession_replies w) 0"
  define ur2 where "ur2 = reply_at (getUser_replies w) 1"
  define sr2 where "sr2 = reply_at (getSession_replies w) 1"
  obtain x v where f1: "fetchCurrentUser w = (x, v)" by (cases "fetchCurrentUser w")
  note a1 = fetchCurrentUser_attempt [of w, unfolded f1 fst_conv snd_conv,
      folded ur1_def sr1_def]
  have goal: "fst (getCurrentUser w)
         = Inr (if ur1 \<noteq> Pending \<and> sr1 \<noteq> Pending
                then (case identity_of_getUser ur1 of Some u \<Rightarrow> Some u
                      | None \<Rightarrow> identity_of_getSession sr1)
                else if ur2 \<noteq> Pending \<and> sr2 \<noteq> Pending
                then (case identity_of_getUser ur2 of Some u \<Rightarrow> Some u
                      | None \<Rightarrow> identity_of_getSession sr2)
                else None)
     \<and> calls (snd (getCurrentUser w))
         = calls w @ (if ur1 \<noteq> Pending \<and> sr1 \<noteq> Pending
                      then [GetUser, GetSession ''GetCurrentUser'']
                      else [GetUser, GetSession ''GetCurrentUser'', Sleep 1000,
                            GetUser, GetSession ''GetCurrentUser''])
     \<and> now (snd (getCurrentUser w))
         = now w + (if ur1 \<noteq> Pending \<and> sr1 \<noteq> Pending then 0
                    else if ur2 \<noteq> Pending \<and> sr2 \<noteq> Pending then 5000 else 9000)"
  proof (cases "ur1 \<noteq> Pending \<and> sr1 \<noteq> Pending")
    case True
    define r where "r = (case identity_of_getUser ur1 of Some u \<Rightarrow> Some u
                         | None \<Rightarrow> identity_of_getSession sr1)"
    have "fetchCurrentUser w = (Fulfilled r, v)" using f1 a1(1) True by (simp add: r_def)
    then have "createResilientFetch fetchCurrentUser ''GetCurrentUser'' 2 4000 w = (Inr r, v)"
      unfolding createResilientFetch_def
      by (intro resilient_loop_fulfilled [where fetchFn = fetchCurrentUser]) simp_all
    then have "getCurrentUser w = (Inr r, v)" by (simp add: getCurrentUser_def)
    then show ?thesis using True a1(4,5) by (simp add: r_def)
  next
    case False
    then have x: "x = Pending" using a1(1) by auto
    define e where "e = Error ''GetCurrentUser timeout after 4000ms''"
    define w2 where "w2 = sleep 1000 (timer_fires 4000 v)"
    note t1 = lookup_attempt_timeout [OF f1 [unfolded x], folded e_def]
    have b1: "backoff_delay 1 = 1000" by (simp add: backoff_delay_def)
    have "resilient_loop fetchCurrentUser ''GetCurrentUser'' 2 4000 1 None w
        = (if gives_up e 1 2 then (Inl (Some e), timer_fires 4000 v)
           else resilient_loop fetchCurrentUser ''GetCurrentUser'' 2 4000 (1 + 1) (Some e)
                  (sleep (backoff_delay 1) (timer_fires 4000 v)))"
      by (rule resilient_loop_failed [where fetchFn = fetchCurrentUser and w = w and l = None
          and a = 1 and m = 2 and name = "''GetCurrentUser''" and t = 4000,
          OF _ f1 [unfolded x] t1(1)]) simp_all
    then have step1: "resilient_loop fetchCurrentUser ''GetCurrentUser'' 2 4000 1 None w
        = resilient_loop fetchCurrentUser ''GetCurrentUser'' 2 4000 2 (Some e) w2"
      by (simp only: t1(2) if_False one_add_one b1 w2_def)
    have w2: "getUser_replies w2 = tl (getUser_replies w)"
      "getSession_replies w2 = tl (getSession_replies w)"
      "calls w2 = calls w @ [GetUser, GetSession ''GetCurrentUser'', Sleep 1000]"
      "now w2 = now w + 5000"
      using a1(2,3,4,5) by (simp_all add: w2_def sleep_def timer_fires_def record_call_def)
    obtain x2 v2 where f2: "fetchCurrentUser w2 = (x2, v2)" by (cases "fetchCurrentUser w2")
    note a2 = fetchCurrentUser_attempt [of w2, unfolded f2 fst_conv snd_conv w2 reply_at_tl,
        folded ur2_def sr2_def]
    show ?thesis
    proof (cases "ur2 \<noteq> Pending \<and> sr2 \<noteq> Pending")
      case True
      define r where "r = (case identity_of_getUser ur2 of Some u \<Rightarrow> Some u
                           | None \<Rightarrow> identity_of_getSession sr2)"
      have "fetchCurrentUser w2 = (Fulfilled r, v2)" using f2 a2(1) True by (simp add: r_def)
      then have "resilient_loop fetchCurrentUser ''GetCurrentUser'' 2 4000 2 (Some e) w2
                   = (Inr r, v2)"
        by (intro resilient_loop_fulfilled [where fetchFn = fetchCurrentUser]) simp_all
      then have "getCurrentUser w = (Inr r, v2)"
        using step1 by (simp add: getCurrentUser_def createResilientFetch_def)
      then show ?thesis using True False a2(4,5) by (simp add: r_def)
    next
      case second: False
      then have x2: "x2 = Pending" using a2(1) by auto
      note t2 = lookup_attempt_timeout [OF f2 [unfolded x2], folded e_def]
      have "resilient_loop fetchCurrentUser ''GetCurrentUser'' 2 4000 2 (Some e) w2
              = (Inl (Some e), timer_fires 4000 v2)"
        using resilient_loop_failed [where fetchFn = fetchCurrentUser and w = w2
            and l = "Some e" and a = 2 and m = 2 and name = "''GetCurrentUser''" and t = 4000,
            OF _ f2 [unfolded x2] t2(1)] t2(3)
        by simp
      then have "getCurrentUser w = (Inr None, timer_fires 4000 v2)"
        using step1 by (simp add: getCurrentUser_def createResilientFetch_def)
      then show ?thesis using second False a2(4,5) by (simp add: timer_fires_def)
    qed
  qed
  then show ?thesis unfolding Let_def ur1_def sr1_def ur2_def sr2_def .
qed

text \<open>
  The three cases at work: a rejected \<open>getUser\<close> and an answered \<open>getSession\<close> give the
  identity at the first attempt; a \<open>getUser\<close> that is late at the first attempt and rejected
  at the second gives the identity at the second attempt, after 5 s; a \<open>getUser\<close> that is
  late at both attempts gives \<open>null\<close> after 9 s, although \<open>getSession\<close> was answered twice.
\<close>

theorem getCurrentUser_waits_for_both_witness:
  "fst (getCurrentUser failing_getUser_backend) = Inr (Some alice)
   \<and> now (snd (getCurrentUser failing_getUser_backend)) = now failing_getUser_backend
   \<and> fst (getCurrentUser recovering_backend) = Inr (Some alice)
   \<and> now (snd (getCurrentUser recovering_backend)) = now recovering_backend + 5000
   \<and> fst (getCurrentUser slow_getUser_backend) = Inr None
   \<and> now (snd (getCurrentUser slow_getUser_backend)) = now slow_getUser_backend + 9000"
  using getCurrentUser_waits_for_both [of failing_getUser_backend]
    getCurrentUser_waits_for_both [of recovering_backend]
    getCurrentUser_waits_for_both [of slow_getUser_backend]
  by (simp add: Let_def reply_at_def failing_getUser_backend_def recovering_backend_def
        slow_getUser_backend_def empty_backend_def identity_of_getUser_def
        identity_of_getSession_def alice_session_reply_def alice_session_def)

text \<open>
  Claim C5 as it is written fails: \<open>getSession\<close> yields the identity without error at both
  attempts, \<open>getUser\<close> is still pending when the timer of each attempt fires, and
  \<open>getCurrentUser\<close> returns \<open>null\<close> after having sent both calls twice.
\<close>

theorem getCurrentUser_first_success_counterexample:
  "identity_of_getSession (Fulfilled alice_session_reply) = Some alice
   \<and> getSession_replies slow_getUser_backend
       = [Fulfilled alice_session_reply, Fulfilled alice_session_reply]
   \<and> fst (getCurrentUser slow_getUser_backend) = Inr None
   \<and> calls (snd (getCurrentUser slow_getUser_backend))
       = [GetUser, GetSession ''GetCurrentUser'', Sleep 1000,
          GetUser, GetSession ''GetCurrentUser'']"
  by (simp add: lookup_eval slow_getUser_backend_def alice_session_reply_def alice_session_def)

section \<open>Verification: the session store\<close>

lemmas session_eval = checkAuthStatus_def find_current_user_def with_user_def without_user_def
  validateExistingSession_def maxRetries_def getCurrentUser_def createResilientFetch_def
  resilient_loop.simps fetchCurrentUser_def getUser_def getSession_def identity_of_getUser_def
  identity_of_getSession_def record_call_def sleep_def timer_fires_def backoff_delay_def
  Error_def startsWith_def string_of_nat.simps Let_def

text \<open>
  Claim C3 fails on the code. A member is signed in, and then every call to the identity
  provider times out: \<open>checkAuthStatus\<close> ends with \<open>user\<close> and \<open>profile\<close> cleared, after the
  calls of two lookup attempts and one session validation, none of which was answered. With
  the retry counter at its bound the same timeouts end in the branch that resets the counter
  (the one the source logs as logging out).
\<close>

theorem checkAuthStatus_timeouts_clear_user:
  "user offline_session = Some alice
   \<and> fst (checkAuthStatus offline_session) = False
   \<and> user (snd (checkAuthStatus offline_session)) = None
   \<and> profile (snd (checkAuthStatus offline_session)) = None
   \<and> auth_error (snd (checkAuthStatus offline_session)) = None
   \<and> retryCount (snd (checkAuthStatus offline_session)) = 1
   \<and> calls (snd (checkAuthStatus offline_session))
       = [GetUser, GetSession ''GetCurrentUser'', Sleep 1000, GetUser,
          GetSession ''GetCurrentUser'', GetSession ''AuthContext'']
   \<and> user (snd (checkAuthStatus (offline_session\<lparr>retryCount := 2\<rparr>))) = None
   \<and> retryCount (snd (checkAuthStatus (offline_session\<lparr>retryCount := 2\<rparr>))) = 0
   \<and> auth_error (snd (checkAuthStatus (offline_session\<lparr>retryCount := 2\<rparr>))) = None"
  by (simp add: session_eval offline_session_def)

text \<open>The same for every state: when no call of \<open>getUser\<close> is answered in time, the identity
  is cleared.\<close>

lemma getCurrentUser_timeouts_state:
  assumes "set (getUser_replies w) \<subseteq> {Pending}"
  shows "\<exists>w'. getCurrentUser w = (Inr None, w') \<and> set (getUser_replies w') \<subseteq> {Pending}"
proof -
  obtain x w' where c: "createResilientFetch fetchCurrentUser ''GetCurrentUser'' 2 4000 w = (x, w')"
    by (cases "createResilientFetch fetchCurrentUser ''GetCurrentUser'' 2 4000 w")
  let ?P = "\<lambda>v. set (getUser_replies v) \<subseteq> {Pending}"
  have "(\<exists>e. x = Inl e \<and> ?P w')
       \<or> (\<exists>r w1. x = Inr r \<and> ?P w1 \<and> fetchCurrentUser w1 = (Fulfilled r, w'))"
  proof (rule createResilientFetch_cases [where P = ?P, OF _ _ _ assms c])
    fix v x v' assume "?P v" "fetchCurrentUser v = (x, v')"
    then show "?P v'" using fetchCurrentUser_effect(1) [of v x v'] by blast
  qed simp_all
  then have "\<exists>e. x = Inl e \<and> ?P w'" using fetchCurrentUser_effect(4) by fastforce
  then show ?thesis using c by (auto simp: getCurrentUser_def)
qed

lemma validateExistingSession_fields:
  "getUser_replies (snd (validateExistingSession v)) = getUser_replies v"
  "user (snd (validateExistingSession v)) = user v"
  by (auto simp: validateExistingSession_def getSession_def record_call_def timer_fires_def
        split: list.splits settled.splits option.splits prod.splits)

lemma find_current_user_timeouts:
  assumes "set (getUser_replies w) \<subseteq> {Pending}"
  shows "\<exists>w'. find_current_user w = (Inr None, w')"
proof -
  from getCurrentUser_timeouts_state [OF assms]
  obtain w1 where g: "getCurrentUser w = (Inr None, w1)"
    and p1: "set (getUser_replies w1) \<subseteq> {Pending}"
    by blast
  obtain b w2 where v: "validateExistingSession (w1\<lparr>retryCount := retryCount w1 + 1\<rparr>) = (b, w2)"
    by (cases "validateExistingSession (w1\<lparr>retryCount := retryCount w1 + 1\<rparr>)")
  have "getUser_replies w2 = getUser_replies w1"
    using validateExistingSession_fields(1) [of "w1\<lparr>retryCount := retryCount w1 + 1\<rparr>"] v
    by simp
  then have "set (getUser_replies (sleep 1000 w2)) \<subseteq> {Pending}" using p1 by simp
  from getCurrentUser_timeouts_state [OF this]
  obtain w3 where "getCurrentUser (sleep 1000 w2) = (Inr None, w3)" by blast
  then show ?thesis using g v by (simp add: find_current_user_def)
qed

lemma without_user_keeps_user: "user (snd (without_user v)) = user v"
  using validateExistingSession_fields(2) [of "v\<lparr>profile := None\<rparr>"]
  by (auto simp: without_user_def Let_def split: prod.splits)

lemma checkAuthStatus_timeouts:
  assumes "set (getUser_replies w) \<subseteq> {Pending}"
  shows "user (snd (checkAuthStatus w)) = None"
proof -
  have "set (getUser_replies (w\<lparr>auth_error := None\<rparr>)) \<subseteq> {Pending}" using assms by simp
  from find_current_user_timeouts [OF this]
  obtain w1 where f: "find_current_user (w\<lparr>auth_error := None\<rparr>) = (Inr None, w1)" by blast
  have "user (snd (without_user (w1\<lparr>user := None\<rparr>))) = None"
    by (simp add: without_user_keeps_user)
  then show ?thesis using f by (auto simp: checkAuthStatus_def split: prod.splits)
qed

section \<open>Verification: the OAuth callback\<close>

lemma handler_view_update [simp]:
  "handler_view (v\<lparr>retryCount := n\<rparr>) = handler_view v"
  "handler_view (v\<lparr>user := u\<rparr>) = handler_view v"
  "handler_view (v\<lparr>profile := p\<rparr>) = handler_view v"
  "handler_view (v\<lparr>auth_error := e\<rparr>) = handler_view v"
  "handler_view (v\<lparr>isLoading := b\<rparr>) = handler_view v"
  "handler_view (v\<lparr>handler_error := h\<rparr>) = handler_view v"
  "handler_view (v\<lparr>getUser_replies := ur\<rparr>) = handler_view v"
  "handler_view (v\<lparr>getSession_replies := sr\<rparr>) = handler_view v"
  "handler_view (v\<lparr>faults := fs\<rparr>) = handler_view v"
  "handler_view (v\<lparr>now := t\<rparr>) = handler_view v"
  by (simp_all add: handler_view_def session_exchanges_def)

lemma handler_view_record_call [simp]:
  "e \<noteq> GetSession ''AuthHandler'' \<Longrightarrow> handler_view (record_call e v) = handler_view v"
  by (simp add: handler_view_def session_exchanges_def record_call_def)

lemma handler_view_sleep [simp]: "handler_view (sleep d v) = handler_view v"
  by (simp add: sleep_def)

lemma handler_view_timer_fires [simp]: "handler_view (timer_fires t v) = handler_view v"
  by (simp add: timer_fires_def)

lemma handler_view_getUser: "handler_view (snd (getUser v)) = handler_view v"
  by (simp add: getUser_def split: list.splits)

lemma handler_view_getSession:
  "c \<noteq> ''AuthHandler'' \<Longrightarrow> handler_view (snd (getSession c v)) = handler_view v"
  by (simp add: getSession_def split: list.splits)

lemma handler_view_next_fault: "handler_view (snd (next_fault v)) = handler_view v"
  by (simp add: next_fault_def split: list.splits)

lemma handler_view_select_user_profile:
  "handler_view (snd (select_user_profile u v)) = handler_view v"
proof -
  obtain f v1 where n: "next_fault (record_call (SelectUserProfile u) v) = (f, v1)"
    by (cases "next_fault (record_call (SelectUserProfile u) v)")
  have "handler_view v1 = handler_view v"
    using handler_view_next_fault [of "record_call (SelectUserProfile u) v"] n by simp
  then show ?thesis using n by (cases f) (simp_all add: select_user_profile_def)
qed

lemma handler_view_select_user_id_org:
  "handler_view (snd (select_user_id_org u v)) = handler_view v"
proof -
  obtain f v1 where n: "next_fault (record_call (SelectUserIdOrg u) v) = (f, v1)"
    by (cases "next_fault (record_call (SelectUserIdOrg u) v)")
  have "handler_view v1 = handler_view v"
    using handler_view_next_fault [of "record_call (SelectUserIdOrg u) v"] n by simp
  then show ?thesis using n by (cases f) (simp_all add: select_user_id_org_def)
qed

lemma handler_view_fetchCurrentUser:
  "handler_view (snd (fetchCurrentUser v)) = handler_view v"
proof -
  obtain ur v1 where gu: "getUser v = (ur, v1)" by (cases "getUser v")
  obtain sr v2 where gs: "getSession ''GetCurrentUser'' v1 = (sr, v2)"
    by (cases "getSession ''GetCurrentUser'' v1")
  have "handler_view v1 = handler_view v" using handler_view_getUser [of v] gu by simp
  moreover have "handler_view v2 = handler_view v1"
    using handler_view_getSession [of "''GetCurrentUser''" v1] gs by simp
  ultimately show ?thesis using fetchCurrentUser_result [OF gu gs] by simp
qed

lemma handler_view_fetchUserProfile:
  "handler_view (snd (fetchUserProfile u v)) = handler_view v"
proof (cases "u = []")
  case True
  then show ?thesis by (simp add: fetchUserProfile_def)
next
  case False
  obtain x v1 where g: "select_user_profile u v = (x, v1)" by (cases "select_user_profile u v")
  have v1: "handler_view v1 = handler_view v"
    using handler_view_select_user_profile [of u v] g by simp
  show ?thesis
  proof (cases x)
    case (Fulfilled r)
    then show ?thesis using False g v1 by (cases "error r") (simp_all add: fetchUserProfile_def)
  qed (use False g v1 in \<open>simp_all add: fetchUserProfile_def\<close>)
qed

lemma handler_view_createResilientFetch:
  assumes "\<And>v. handler_view (snd (fetchFn v)) = handler_view v"
  shows "handler_view (snd (createResilientFetch fetchFn name m t w)) = handler_view w"
proof -
  obtain x w' where c: "createResilientFetch fetchFn name m t w = (x, w')"
    by (cases "createResilientFetch fetchFn name m t w")
  let ?P = "\<lambda>v. handler_view v = handler_view w"
  have step: "?P v'" if "?P v" "fetchFn v = (y, v')" for v y v'
    using assms [of v] that by simp
  have "(\<exists>e. x = Inl e \<and> ?P w')
       \<or> (\<exists>r w1. x = Inr r \<and> ?P w1 \<and> fetchFn w1 = (Fulfilled r, w'))"
  proof (rule createResilientFetch_cases [where P = ?P, OF _ _ _ _ c])
    fix v y v' assume "?P v" "fetchFn v = (y, v')"
    then show "?P v'" by (rule step)
  qed simp_all
  then have "?P w'" using step by blast
  then show ?thesis using c by simp
qed

lemma handler_view_getCurrentUser:
  "handler_view (snd (getCurrentUser w)) = handler_view w"
  using handler_view_createResilientFetch [of fetchCurrentUser "''GetCurrentUser''" 2 4000 w,
          OF handler_view_fetchCurrentUser]
  by (auto simp: getCurrentUser_def split: prod.splits sum.splits)

lemma handler_view_getUserProfile:
  "handler_view (snd (getUserProfile u w)) = handler_view w"
  using handler_view_createResilientFetch [of "fetchUserProfile u" "''GetUserProfile''" 2 5000 w,
          OF handler_view_fetchUserProfile]
  by (auto simp: getUserProfile_def split: prod.splits sum.splits)

lemma handler_view_validateExistingSession:
  "handler_view (snd (validateExistingSession v)) = handler_view v"
proof -
  obtain x v1 where gs: "getSession ''AuthContext'' v = (x, v1)"
    by (cases "getSession ''AuthContext'' v")
  have u: "handler_view v1 = handler_view v"
    using handler_view_getSession [of "''AuthContext''" v] gs by simp
  have "snd (validateExistingSession v) = v1 \<or> snd (validateExistingSession v) = timer_fires 3000 v1"
    using gs by (auto simp: validateExistingSession_def split: settled.splits option.splits)
  then show ?thesis using u by auto
qed

lemma handler_view_find_current_user:
  "handler_view (snd (find_current_user w)) = handler_view w"
proof -
  obtain x w1 where g: "getCurrentUser w = (x, w1)" by (cases "getCurrentUser w")
  have u1: "handler_view w1 = handler_view w" using handler_view_getCurrentUser [of w] g by simp
  let ?v = "w1\<lparr>retryCount := retryCount w1 + 1\<rparr>"
  obtain b w2 where v: "validateExistingSession ?v = (b, w2)"
    by (cases "validateExistingSession ?v")
  have u2: "handler_view w2 = handler_view w"
    using handler_view_validateExistingSession [of ?v] v u1 by simp
  have u3: "handler_view (snd (getCurrentUser (sleep 1000 w2))) = handler_view w"
    using u2 handler_view_getCurrentUser [of "sleep 1000 w2"] by simp
  show ?thesis
  proof (cases x)
    case (Inl e)
    then show ?thesis using g u1 by (simp add: find_current_user_def)
  next
    case (Inr currentUser)
    show ?thesis
    proof (cases "currentUser = None \<and> retryCount w1 < maxRetries")
      case False
      then show ?thesis using g Inr u1 by (auto simp: find_current_user_def)
    next
      case True
      then show ?thesis using g Inr v u2 u3 by (cases b) (simp_all add: find_current_user_def)
    qed
  qed
qed

lemma handler_view_with_user: "handler_view (snd (with_user u w)) = handler_view w"
proof -
  obtain r w1 where g: "getUserProfile (user_id u) w = (r, w1)"
    by (cases "getUserProfile (user_id u) w")
  have u1: "handler_view w1 = handler_view w"
    using handler_view_getUserProfile [of "user_id u" w] g by simp
  show ?thesis using g u1 by (cases "result_error r") (simp_all add: with_user_def)
qed

lemma handler_view_without_user: "handler_view (snd (without_user w)) = handler_view w"
proof -
  let ?v = "w\<lparr>profile := None\<rparr>"
  obtain b w2 where v: "validateExistingSession ?v = (b, w2)"
    by (cases "validateExistingSession ?v")
  have u2: "handler_view w2 = handler_view w"
    using handler_view_validateExistingSession [of ?v] v by simp
  show ?thesis
  proof (cases "retryCount w \<ge> maxRetries")
    case True
    then show ?thesis using v u2 by (cases b) (simp_all add: without_user_def Let_def)
  next
    case False
    then show ?thesis by (simp add: without_user_def Let_def)
  qed
qed

lemma handler_view_checkAuthStatus:
  "handler_view (snd (checkAuthStatus w)) = handler_view w"
proof -
  let ?w0 = "w\<lparr>auth_error := None\<rparr>"
  obtain x w1 where f: "find_current_user ?w0 = (x, w1)" by (cases "find_current_user ?w0")
  have u1: "handler_view w1 = handler_view w"
    using handler_view_find_current_user [of ?w0] f by simp
  show ?thesis
  proof (cases x)
    case (Inl thrown)
    then show ?thesis using f u1 by (simp add: checkAuthStatus_def Let_def)
  next
    case (Inr currentUser)
    show ?thesis
    proof (cases currentUser)
      case None
      obtain b w2 where wo: "without_user (w1\<lparr>user := None\<rparr>) = (b, w2)"
        by (cases "without_user (w1\<lparr>user := None\<rparr>)")
      have "handler_view w2 = handler_view w"
        using handler_view_without_user [of "w1\<lparr>user := None\<rparr>"] wo u1 by simp
      then show ?thesis using f Inr None wo by (simp add: checkAuthStatus_def)
    next
      case (Some u)
      obtain b w2 where wu: "with_user u (w1\<lparr>user := Some u\<rparr>) = (b, w2)"
        by (cases "with_user u (w1\<lparr>user := Some u\<rparr>)")
      have "handler_view w2 = handler_view w"
        using handler_view_with_user [of u "w1\<lparr>user := Some u\<rparr>"] wu u1 by simp
      then show ?thesis using f Inr Some wu by (simp add: checkAuthStatus_def)
    qed
  qed
qed


lemma cleaned_view_cong: "handler_view a = handler_view b \<Longrightarrow> cleaned_view a = cleaned_view b"
  by (simp add: handler_view_def cleaned_view_def)

lemma cleaned_view_idem: "handler_view b = cleaned_view a \<Longrightarrow> cleaned_view b = cleaned_view a"
  by (simp add: handler_view_def cleaned_view_def)

lemma handler_view_cleanUrl: "handler_view (cleanUrl v) = cleaned_view v"
  by (simp add: cleanUrl_def handler_view_def cleaned_view_def session_exchanges_def
        record_call_def)

lemma handler_view_navigate: "handler_view (navigate path v) = handler_view v"
  by (simp add: navigate_def)

lemma handler_view_callback_failed: "handler_view (callback_failed e v) = cleaned_view v"
proof -
  have "handler_view (callback_failed e v)
          = handler_view (cleanUrl (v\<lparr>handler_error :=
                      Some (if message e \<noteq> [] then message e else ''Authentication failed'')\<rparr>))"
    by (simp add: callback_failed_def)
  also have "\<dots> = cleaned_view v"
    unfolding handler_view_cleanUrl by (rule cleaned_view_cong) simp
  finally show ?thesis .
qed

lemma handler_view_with_session: "handler_view (with_session session v) = cleaned_view v"
proof -
  let ?u = "user_id (session_user session)"
  obtain x v1 where g: "select_user_id_org ?u (cleanUrl v) = (x, v1)"
    by (cases "select_user_id_org ?u (cleanUrl v)")
  have v1: "handler_view v1 = cleaned_view v"
    using handler_view_select_user_id_org [of ?u "cleanUrl v"] g
    by (simp add: handler_view_cleanUrl)
  then have c1: "cleaned_view v1 = cleaned_view v" by (rule cleaned_view_idem)
  show ?thesis
  proof (cases x)
    case Pending
    have "handler_view (timer_fires 10000 v1) = handler_view v1" by simp
    then have "cleaned_view (timer_fires 10000 v1) = cleaned_view v"
      using c1 cleaned_view_cong [of "timer_fires 10000 v1" v1] by simp
    then show ?thesis using g Pending
      by (simp add: with_session_def handler_view_callback_failed)
  next
    case (Rejected e)
    then show ?thesis using g c1 by (simp add: with_session_def handler_view_callback_failed)
  next
    case (Fulfilled r)
    show ?thesis
    proof (cases "error r")
      case (Some profileError)
      then show ?thesis using g Fulfilled v1
        by (simp add: with_session_def handler_view_navigate)
    next
      case None
      show ?thesis
      proof (cases "data r")
        case None
        then show ?thesis using g Fulfilled \<open>error r = None\<close> v1
          by (simp add: with_session_def handler_view_navigate)
      next
        case (Some profileData)
        then show ?thesis using g Fulfilled \<open>error r = None\<close> v1
          by (simp add: with_session_def handler_view_navigate handler_view_checkAuthStatus)
      qed
    qed
  qed
qed

lemma handler_view_settled:
  assumes "handler_view q1 = handler_view q"
  shows "handler_view
           (case reply of
               Pending \<Rightarrow> callback_failed (Error ''Session retrieval timeout'') (timer_fires 15000 q1)
             | Rejected e \<Rightarrow> callback_failed e q1
             | Fulfilled r \<Rightarrow>
                 (case session_reply_error r of
                    Some sessionError \<Rightarrow>
                      callback_failed
                        (Error (''OAuth authentication failed: '' @ message sessionError)) q1
                  | None \<Rightarrow>
                      (case reply_session r of
                         None \<Rightarrow>
                           callback_failed (Error ''Authentication failed. No session created.'') q1
                       | Some session \<Rightarrow> with_session session q1)))
         = cleaned_view q"
proof -
  have c1: "cleaned_view q1 = cleaned_view q" using assms by (rule cleaned_view_cong)
  have "handler_view (timer_fires 15000 q1) = handler_view q" using assms by simp
  then have c2: "cleaned_view (timer_fires 15000 q1) = cleaned_view q" by (rule cleaned_view_cong)
  show ?thesis
  proof (cases reply)
    case Pending
    then show ?thesis using c2 by (simp add: handler_view_callback_failed)
  next
    case (Rejected e)
    then show ?thesis using c1 by (simp add: handler_view_callback_failed)
  next
    case (Fulfilled r)
    show ?thesis
    proof (cases "session_reply_error r")
      case (Some sessionError)
      then show ?thesis using Fulfilled c1 by (simp add: handler_view_callback_failed)
    next
      case None
      then show ?thesis using Fulfilled c1
        by (cases "reply_session r")
           (simp_all add: handler_view_callback_failed handler_view_with_session)
    qed
  qed
qed

lemma handler_view_resume:
  "handler_view (handleOAuthCallback_resume q)
     = (session_exchanges q, pathname q, [], [], False)"
proof (cases "getSession_replies q")
  case Nil
  have "handler_view q = handler_view q" by simp
  from handler_view_settled [OF this, of Pending]
  show ?thesis using Nil
    by (simp add: handleOAuthCallback_resume_def handler_view_def cleaned_view_def
          session_exchanges_def)
next
  case (Cons r rs)
  have "handler_view (q\<lparr>getSession_replies := rs\<rparr>) = handler_view q" by simp
  from handler_view_settled [OF this, of r]
  show ?thesis using Cons
    by (simp add: handleOAuthCallback_resume_def handler_view_def cleaned_view_def
          session_exchanges_def)
qed


lemma begin_while_processing:
  "isProcessing p \<Longrightarrow> handleOAuthCallback_begin p = (False, p)"
  by (simp add: handleOAuthCallback_begin_def)

lemma begin_without_marker:
  "\<not> hasOAuthHash p \<Longrightarrow> \<not> hasOAuthParams p \<Longrightarrow> handleOAuthCallback_begin p = (False, p)"
  by (simp add: handleOAuthCallback_begin_def)

lemma begin_with_marker:
  assumes "\<not> isProcessing p" "hasOAuthHash p \<or> hasOAuthParams p"
  shows "fst (handleOAuthCallback_begin p)"
    and "isProcessing (snd (handleOAuthCallback_begin p))"
    and "session_exchanges (snd (handleOAuthCallback_begin p)) = session_exchanges p + 1"
  using assms
  by (auto simp: handleOAuthCallback_begin_def record_call_def session_exchanges_def)

lemma no_marker:
  assumes "\<not> js_includes (hash p) ''access_token''" "\<not> js_includes (hash p) ''error''"
      and "\<not> js_includes (search p) ''code=''" "\<not> js_includes (search p) ''error=''"
  shows "\<not> hasOAuthHash p" "\<not> hasOAuthParams p"
  using assms by (simp_all add: hasOAuthHash_def hasOAuthParams_def)

text \<open>
  Claim C8, as the code has it. An invocation that finds \<open>isProcessing\<close> set does nothing. So
  when a first invocation has found a marker and sent its session request, a second
  invocation that starts before the first has ended changes nothing, and when the first has
  ended exactly one session request has been sent by the handler; by then the address has
  been cleaned and \<open>isProcessing\<close> reset, and a further invocation does nothing either. And an
  invocation does nothing when the fragment contains neither \<open>access_token\<close> nor \<open>error\<close> and
  the query string contains neither \<open>code=\<close> nor \<open>error=\<close>.
\<close>

theorem oauth_callback_single_flight:
  "(isProcessing p \<longrightarrow> handleOAuthCallback p = p)
   \<and> (\<not> isProcessing p \<and> (hasOAuthHash p \<or> hasOAuthParams p) \<longrightarrow>
        (let p1 = snd (handleOAuthCallback_begin p);
             p2 = handleOAuthCallback p1;
             p3 = handleOAuthCallback_resume p2
         in session_exchanges p1 = session_exchanges p + 1 \<and> isProcessing p1 \<and> p2 = p1
            \<and> session_exchanges p3 = session_exchanges p + 1 \<and> \<not> isProcessing p3
            \<and> handleOAuthCallback p3 = p3))
   \<and> (\<not> js_includes (hash p) ''access_token'' \<and> \<not> js_includes (hash p) ''error''
        \<and> \<not> js_includes (search p) ''code='' \<and> \<not> js_includes (search p) ''error=''
       \<longrightarrow> handleOAuthCallback p = p)"
proof (intro conjI impI)
  assume "isProcessing p"
  then show "handleOAuthCallback p = p"
    by (simp add: handleOAuthCallback_def begin_while_processing)
next
  assume "\<not> js_includes (hash p) ''access_token'' \<and> \<not> js_includes (hash p) ''error''
        \<and> \<not> js_includes (search p) ''code='' \<and> \<not> js_includes (search p) ''error=''"
  then have "\<not> hasOAuthHash p" "\<not> hasOAuthParams p" using no_marker by blast+
  then show "handleOAuthCallback p = p"
    by (simp add: handleOAuthCallback_def begin_without_marker)
next
  assume a: "\<not> isProcessing p \<and> (hasOAuthHash p \<or> hasOAuthParams p)"
  define p1 where "p1 = snd (handleOAuthCallback_begin p)"
  define p3 where "p3 = handleOAuthCallback_resume p1"
  have b: "isProcessing p1" "session_exchanges p1 = session_exchanges p + 1"
    using begin_with_marker [of p] a by (simp_all add: p1_def)
  have p2: "handleOAuthCallback p1 = p1"
    using b(1) by (simp add: handleOAuthCallback_def begin_while_processing)
  have v3: "handler_view p3 = (session_exchanges p1, pathname p1, [], [], False)"
    unfolding p3_def by (rule handler_view_resume)
  then have c: "session_exchanges p3 = session_exchanges p + 1" "\<not> isProcessing p3"
    "search p3 = []" "hash p3 = []"
    using b(2) by (simp_all add: handler_view_def)
  have "handleOAuthCallback p3 = p3"
    using c(3,4)
    by (simp add: handleOAuthCallback_def begin_without_marker hasOAuthHash_def
          hasOAuthParams_def)
  then show "let p1 = snd (handleOAuthCallback_begin p);
             p2 = handleOAuthCallback p1;
             p3 = handleOAuthCallback_resume p2
         in session_exchanges p1 = session_exchanges p + 1 \<and> isProcessing p1 \<and> p2 = p1
            \<and> session_exchanges p3 = session_exchanges p + 1 \<and> \<not> isProcessing p3
            \<and> handleOAuthCallback p3 = p3"
    using b c p2 by (simp add: Let_def p1_def [symmetric] p3_def [symmetric])
qed

theorem oauth_callback_single_flight_witness:
  "isProcessing (callback_page\<lparr>isProcessing := True\<rparr>)
   \<and> handleOAuthCallback (callback_page\<lparr>isProcessing := True\<rparr>)
       = callback_page\<lparr>isProcessing := True\<rparr>
   \<and> \<not> isProcessing callback_page \<and> hasOAuthHash callback_page
   \<and> session_exchanges (snd (handleOAuthCallback_begin callback_page)) = 1
   \<and> session_exchanges
        (handleOAuthCallback_resume
           (handleOAuthCallback (snd (handleOAuthCallback_begin callback_page)))) = 1
   \<and> \<not> js_includes (hash (callback_page\<lparr>hash := []\<rparr>)) ''access_token''
   \<and> \<not> js_includes (hash (callback_page\<lparr>hash := []\<rparr>)) ''error''
   \<and> \<not> js_includes (search (callback_page\<lparr>hash := []\<rparr>)) ''code=''
   \<and> \<not> js_includes (search (callback_page\<lparr>hash := []\<rparr>)) ''error=''
   \<and> handleOAuthCallback (callback_page\<lparr>hash := []\<rparr>) = callback_page\<lparr>hash := []\<rparr>"
proof -
  have a: "isProcessing (callback_page\<lparr>isProcessing := True\<rparr>)" by simp
  have b: "\<not> isProcessing callback_page" "hasOAuthHash callback_page"
    "session_exchanges callback_page = 0"
    by (simp_all add: callback_page_def hasOAuthHash_def startsWith_def session_exchanges_def)
  have c: "\<not> js_includes (hash (callback_page\<lparr>hash := []\<rparr>)) ''access_token''"
    "\<not> js_includes (hash (callback_page\<lparr>hash := []\<rparr>)) ''error''"
    "\<not> js_includes (search (callback_page\<lparr>hash := []\<rparr>)) ''code=''"
    "\<not> js_includes (search (callback_page\<lparr>hash := []\<rparr>)) ''error=''"
    by (simp_all add: callback_page_def)
  from oauth_callback_single_flight [of "callback_page\<lparr>isProcessing := True\<rparr>"] a
  have 1: "handleOAuthCallback (callback_page\<lparr>isProcessing := True\<rparr>)
       = callback_page\<lparr>isProcessing := True\<rparr>"
    by blast
  from oauth_callback_single_flight [of callback_page] b
  have 2: "session_exchanges (snd (handleOAuthCallback_begin callback_page)) = 1"
    "session_exchanges
        (handleOAuthCallback_resume
           (handleOAuthCallback (snd (handleOAuthCallback_begin callback_page)))) = 1"
    by (auto simp: Let_def)
  from oauth_callback_single_flight [of "callback_page\<lparr>hash := []\<rparr>"] c
  have 3: "handleOAuthCallback (callback_page\<lparr>hash := []\<rparr>) = callback_page\<lparr>hash := []\<rparr>"
    by blast
  show ?thesis using a b c 1 2 3 by blast
qed

text \<open>
  Claim C8 as it is written fails in its second part: with \<open>?code=abc\<close> as query string and
  an empty fragment, neither contains \<open>access_token\<close> or \<open>error\<close>, and the handler starts
  processing and sends a session request.
\<close>

theorem oauth_callback_code_marker_counterexample:
  "\<not> js_includes (hash code_page) ''access_token'' \<and> \<not> js_includes (hash code_page) ''error''
   \<and> \<not> js_includes (search code_page) ''access_token''
   \<and> \<not> js_includes (search code_page) ''error''
   \<and> \<not> isProcessing code_page
   \<and> handleOAuthCallback_begin code_page
       = (True, code_page\<lparr>isProcessing := True,
                           calls := [GetSession ''AuthHandler'']\<rparr>)
   \<and> session_exchanges (handleOAuthCallback code_page) = 1"
proof -
  have a: "\<not> js_includes (hash code_page) ''access_token''"
    "\<not> js_includes (hash code_page) ''error''"
    "\<not> js_includes (search code_page) ''access_token''"
    "\<not> js_includes (search code_page) ''error''"
    "\<not> isProcessing code_page"
    by (simp_all add: code_page_def callback_page_def startsWith_def)
  have b: "handleOAuthCallback_begin code_page
       = (True, code_page\<lparr>isProcessing := True, calls := [GetSession ''AuthHandler'']\<rparr>)"
    by (simp add: handleOAuthCallback_begin_def hasOAuthHash_def hasOAuthParams_def
          record_call_def code_page_def callback_page_def startsWith_def)
  have "handler_view (handleOAuthCallback code_page)
        = (session_exchanges (code_page\<lparr>isProcessing := True,
                           calls := [GetSession ''AuthHandler'']\<rparr>),
           pathname (code_page\<lparr>isProcessing := True,
                           calls := [GetSession ''AuthHandler'']\<rparr>), [], [], False)"
    by (simp add: handleOAuthCallback_def b handler_view_resume)
  then have "session_exchanges (handleOAuthCallback code_page) = 1"
    by (simp add: handler_view_def session_exchanges_def)
  then show ?thesis using a b by blast
qed

section \<open>Verification: provisioning\<close>

lemma insert_user_effect:
  assumes "insert_user r w = (x, w')"
  shows "organizations w' = organizations w"
    and "users w' = users w
         \<or> (users w' = users w @ [r] \<and> row_id r \<notin> set (map row_id (users w)))"
    and "x = Inr res \<Longrightarrow> error res = None \<Longrightarrow> users w' = users w @ [r]"
  using assms
  by (auto simp: insert_user_def next_fault_def record_call_def refuse_def
        split: list.splits fault.splits if_splits)

lemma sleep_tables [simp]:
  "users (sleep d w) = users w" "organizations (sleep d w) = organizations w"
  by (simp_all add: sleep_def record_call_def)

lemma insert_profile_loop_effect:
  "organizations (snd (insert_profile_loop r n w)) = organizations w
   \<and> (users (snd (insert_profile_loop r n w)) = users w
       \<or> (users (snd (insert_profile_loop r n w)) = users w @ [r]
           \<and> row_id r \<notin> set (map row_id (users w))))
   \<and> (fst (insert_profile_loop r n w) = None \<longrightarrow>
         users (snd (insert_profile_loop r n w)) = users w @ [r])"
proof (induction "3 - n" arbitrary: n w)
  case 0
  then have "\<not> n < 3" by simp
  then show ?case by (subst (1 2 3 4 5) insert_profile_loop.simps) simp
next
  case (Suc k)
  then have lt: "n < 3" and k: "k = 3 - (n + 1)" by simp_all
  obtain x w1 where iu: "insert_user r w = (x, w1)" by (cases "insert_user r w")
  note e = insert_user_effect [OF iu]
  show ?case
  proof (cases x)
    case (Inl thrown)
    have "insert_profile_loop r n w = (Some ''Failed to create user profile'', w1)"
      using lt iu Inl by (subst insert_profile_loop.simps) simp
    then show ?thesis using e(1,2) by auto
  next
    case (Inr res)
    show ?thesis
    proof (cases "error res")
      case None
      have "insert_profile_loop r n w = (None, w1)"
        using lt iu Inr None by (subst insert_profile_loop.simps) simp
      then show ?thesis using e(1,2) e(3) [OF Inr None] by auto
    next
      case (Some profileError)
      have same: "users w1 = users w"
        using iu Inr Some
        by (auto simp: insert_user_def next_fault_def record_call_def refuse_def
              split: list.splits fault.splits if_splits)
      show ?thesis
      proof (cases "n = 2")
        case True
        have "insert_profile_loop r n w
                = (Some (handleDatabaseError profileError ''create user profile''), w1)"
          using lt iu Inr Some True by (subst insert_profile_loop.simps) simp
        then show ?thesis using e(1) same by simp
      next
        case False
        have "insert_profile_loop r n w = insert_profile_loop r (n + 1) (sleep 1000 w1)"
          using lt iu Inr Some False by (subst insert_profile_loop.simps) simp
        then show ?thesis using Suc.hyps(1) [OF k, of "sleep 1000 w1"] e(1) same by simp
      qed
    qed
  qed
qed


lemma select_org_effect:
  assumes "select_org jc w = (x, w1)"
  shows "users w1 = users w" "organizations w1 = organizations w"
    and "x = Fulfilled r \<Longrightarrow> data r = Some orgData \<Longrightarrow>
           find (\<lambda>org. join_code org = jc) (organizations w) = Some orgData"
  using assms
  by (auto simp: select_org_def next_fault_def record_call_def refuse_def
        split: list.splits fault.splits)

lemma timer_fires_tables [simp]:
  "users (timer_fires t w) = users w" "organizations (timer_fires t w) = organizations w"
  by (simp_all add: timer_fires_def)

lemma find_row_id:
  "find (\<lambda>r. row_id r = uid) rows = Some z \<Longrightarrow> uid \<in> row_id ` set rows"
  by (induction rows) (auto split: if_splits)

lemma select_user_id_effect:
  assumes "select_user_id uid w = (x, w1)"
  shows "users w1 = users w" "organizations w1 = organizations w"
    and "x = Inr r \<Longrightarrow> data r = Some i \<Longrightarrow> uid \<in> set (map row_id (users w))"
  using assms
  by (auto simp: select_user_id_def next_fault_def record_call_def refuse_def
        split: list.splits fault.splits dest: find_row_id)

text \<open>
  What one call of \<open>createUserProfileFromOAuth\<close> does to the tables: it adds no row, or one row
  of the identity, whose \<open>id\<close> was not in the table; and after a success the table has a row
  of the identity.
\<close>

lemma createUserProfileFromOAuth_effect:
  "organizations (snd (createUserProfileFromOAuth who jc role w)) = organizations w
   \<and> (users (snd (createUserProfileFromOAuth who jc role w)) = users w
       \<or> (\<exists>r. users (snd (createUserProfileFromOAuth who jc role w)) = users w @ [r]
              \<and> map_option user_id who = Some (row_id r)
              \<and> row_id r \<notin> set (map row_id (users w))))
   \<and> (fst (createUserProfileFromOAuth who jc role w) = None \<longrightarrow>
        (\<exists>u. who = Some u
           \<and> user_id u \<in> set (map row_id (users (snd (createUserProfileFromOAuth who jc role w))))))"
  (is "?goal")
proof (cases who)
  case None
  then show ?thesis by (simp add: createUserProfileFromOAuth_def)
next
  case (Some u)
  show ?thesis
  proof (cases "user_id u = [] \<or> trim jc = []")
    case True
    then show ?thesis using Some by (auto simp: createUserProfileFromOAuth_def)
  next
    case ok: False
    obtain x w1 where so: "select_org (trim jc) w = (x, w1)" by (cases "select_org (trim jc) w")
    note eo = select_org_effect [OF so]
    show ?thesis
    proof (cases "\<exists>r orgData. x = Fulfilled r \<and> error r = None \<and> data r = Some orgData")
      case False
      then have "fst (createUserProfileFromOAuth who jc role w) \<noteq> None
               \<and> (snd (createUserProfileFromOAuth who jc role w) = w1
                  \<or> snd (createUserProfileFromOAuth who jc role w) = timer_fires 5000 w1)"
        using Some ok so
        by (auto simp: createUserProfileFromOAuth_def split: settled.splits option.splits)
      then show ?thesis using eo(1,2) by auto
    next
      case True
      then obtain r orgData where x: "x = Fulfilled r" "error r = None" "data r = Some orgData"
        by blast
      obtain y w2 where su: "select_user_id (user_id u) w1 = (y, w2)"
        by (cases "select_user_id (user_id u) w1")
      note eu = select_user_id_effect [OF su]
      have tables: "users w2 = users w" "organizations w2 = organizations w"
        using eo eu by simp_all
      show ?thesis
      proof (cases y)
        case (Inl thrown)
        then have "createUserProfileFromOAuth who jc role w
                     = (Some ''An unexpected error occurred'', w2)"
          using Some ok so x su by (simp add: createUserProfileFromOAuth_def)
        then show ?thesis using tables by simp
      next
        case (Inr existing)
        show ?thesis
        proof (cases "data existing")
          case (Some existingProfile)
          have "createUserProfileFromOAuth who jc role w = (None, w2)"
            using \<open>who = Some u\<close> ok so x su Inr Some
            by (simp add: createUserProfileFromOAuth_def)
          moreover have "user_id u \<in> set (map row_id (users w2))"
            using eu(3) [OF Inr Some] eu(1) by simp
          ultimately show ?thesis using tables \<open>who = Some u\<close> by simp
        next
          case None
          let ?row = "new_profile_row u orgData role"
          have c: "createUserProfileFromOAuth who jc role w = insert_profile_loop ?row 0 w2"
            using \<open>who = Some u\<close> ok so x su Inr None
            by (simp add: createUserProfileFromOAuth_def)
          have id: "row_id ?row = user_id u" by (simp add: new_profile_row_def)
          from insert_profile_loop_effect [of ?row 0 w2]
          show ?thesis unfolding c using tables \<open>who = Some u\<close> id by auto
        qed
      qed
    qed
  qed
qed


lemma find_row_exists:
  "uid \<in> row_id ` set rows \<Longrightarrow> \<exists>z. find (\<lambda>r. row_id r = uid) rows = Some z"
  by (induction rows) auto

text \<open>A call succeeds only with an identity, a join code and an organization of that code.\<close>

lemma createUserProfileFromOAuth_success:
  assumes "fst (createUserProfileFromOAuth (Some u) jc role w) = None"
  shows "user_id u \<noteq> [] \<and> trim jc \<noteq> []
         \<and> find (\<lambda>org. join_code org = trim jc) (organizations w) \<noteq> None"
proof -
  have ok: "user_id u \<noteq> []" "trim jc \<noteq> []"
    using assms by (auto simp: createUserProfileFromOAuth_def split: if_splits)
  obtain x w1 where so: "select_org (trim jc) w = (x, w1)" by (cases "select_org (trim jc) w")
  have "\<exists>r orgData. x = Fulfilled r \<and> data r = Some orgData"
  proof (rule ccontr)
    assume "\<not> (\<exists>r orgData. x = Fulfilled r \<and> data r = Some orgData)"
    then have "fst (createUserProfileFromOAuth (Some u) jc role w) \<noteq> None"
      using ok so
      by (auto simp: createUserProfileFromOAuth_def split: settled.splits option.splits)
    then show False using assms by simp
  qed
  then show ?thesis using ok select_org_effect(3) [OF so] by fastforce
qed

text \<open>What the two reads return when they are answered without error.\<close>

lemma select_org_answered:
  assumes "select_org jc w = (Fulfilled r, w1)" "error r = None"
  shows "data r = find (\<lambda>org. join_code org = jc) (organizations w)"
    and "calls w1 = calls w @ [SelectOrg jc]"
  using assms
  by (auto simp: select_org_def next_fault_def record_call_def refuse_def
        split: list.splits fault.splits)

lemma select_user_id_answered:
  assumes "select_user_id uid w = (Inr r, w1)" "error r = None"
  shows "data r = map_option row_id (find (\<lambda>r. row_id r = uid) (users w))"
    and "calls w1 = calls w @ [SelectUserId uid]"
  using assms
  by (auto simp: select_user_id_def next_fault_def record_call_def refuse_def
        split: list.splits fault.splits)

text \<open>The idempotency check: a profile row exists and the two reads are answered.\<close>

lemma createUserProfileFromOAuth_existing:
  assumes "user_id u \<noteq> []" "trim jc \<noteq> []"
      and "find (\<lambda>org. join_code org = trim jc) (organizations w) \<noteq> None"
      and "user_id u \<in> set (map row_id (users w))"
      and "reads_answered (trim jc) (user_id u) w"
  shows "fst (createUserProfileFromOAuth (Some u) jc role w) = None"
    and "users (snd (createUserProfileFromOAuth (Some u) jc role w)) = users w"
    and "organizations (snd (createUserProfileFromOAuth (Some u) jc role w)) = organizations w"
    and "calls (snd (createUserProfileFromOAuth (Some u) jc role w))
           = calls w @ [SelectOrg (trim jc), SelectUserId (user_id u)]"
proof -
  obtain x w1 where so: "select_org (trim jc) w = (x, w1)" by (cases "select_org (trim jc) w")
  obtain y w2 where su: "select_user_id (user_id u) w1 = (y, w2)"
    by (cases "select_user_id (user_id u) w1")
  from assms(5) obtain ro where x: "x = Fulfilled ro" and ro: "error ro = None"
    using so by (cases x) (auto simp: reads_answered_def)
  from assms(5) obtain re where y: "y = Inr re" and re: "error re = None"
    using so su x by (cases y) (auto simp: reads_answered_def)
  note eo = select_org_effect(1,2) [OF so] and eu = select_user_id_effect(1,2) [OF su]
  note ao = select_org_answered [OF so [unfolded x] ro]
    and au = select_user_id_answered [OF su [unfolded y] re]
  obtain orgData where org: "data ro = Some orgData" using ao(1) assms(3) by auto
  obtain z where "find (\<lambda>r. row_id r = user_id u) (users w1) = Some z"
    using find_row_exists [of "user_id u" "users w1"] assms(4) eo(1) by auto
  then obtain i where row: "data re = Some i" using au(1) by simp
  have "createUserProfileFromOAuth (Some u) jc role w = (None, w2)"
    using assms(1,2) so x ro org su y row by (simp add: createUserProfileFromOAuth_def)
  then show "fst (createUserProfileFromOAuth (Some u) jc role w) = None"
    and "users (snd (createUserProfileFromOAuth (Some u) jc role w)) = users w"
    and "organizations (snd (createUserProfileFromOAuth (Some u) jc role w)) = organizations w"
    and "calls (snd (createUserProfileFromOAuth (Some u) jc role w))
           = calls w @ [SelectOrg (trim jc), SelectUserId (user_id u)]"
    using eo eu ao(2) au(2) by simp_all
qed


lemma createUserProfileFromOAuth_twice:
  assumes "w1 = snd (createUserProfileFromOAuth (Some u) jc role w)"
      and "w2 = snd (createUserProfileFromOAuth (Some u) jc' role' w1)"
  shows "\<exists>rows. users w2 = users w @ rows \<and> length rows \<le> 1
                \<and> (\<forall>r\<in>set rows. row_id r = user_id u)"
proof -
  note e1 = createUserProfileFromOAuth_effect [of "Some u" jc role w, folded assms(1)]
  note e2 = createUserProfileFromOAuth_effect [of "Some u" jc' role' w1, folded assms(2)]
  from e1 consider (same) "users w1 = users w"
    | (added) r where "users w1 = users w @ [r]" "row_id r = user_id u"
    by auto
  then show ?thesis
  proof cases
    case same
    from e2 consider "users w2 = users w1"
      | r where "users w2 = users w1 @ [r]" "row_id r = user_id u"
      by auto
    then show ?thesis
    proof cases
      case 1
      then have "users w2 = users w @ []" using same by simp
      then show ?thesis by (metis empty_iff le0 list.set(1) list.size(3))
    next
      case (2 r)
      then have "users w2 = users w @ [r]" using same by simp
      then show ?thesis using 2(2) by (intro exI [of _ "[r]"]) simp
    qed
  next
    case (added r)
    have "user_id u \<in> set (map row_id (users w1))" using added by simp
    then have "users w2 = users w1" using e2 by auto
    then have "users w2 = users w @ [r]" using added by simp
    then show ?thesis using added(2) by (intro exI [of _ "[r]"]) simp
  qed
qed

lemmas provisioning_eval = createUserProfileFromOAuth_def select_org_def select_user_id_def
  insert_user_def insert_profile_loop.simps new_profile_row_def userName_of_def or_else_def
  or_default_def email_local_part_def trim_def is_space_def toLowerCase_def
  toLowerCase_char_def next_fault_def record_call_def refuse_def acme_backend_def
  empty_backend_def new_member_def

text \<open>
  Claim C6, as the code has it. Two calls of \<open>createUserProfileFromOAuth\<close> with the same
  identity, one after the other and whatever the faults of the backend, add at most one row
  to the profile table, and a row they add is a row of the identity. When the first call has
  succeeded and the two reads of the second call are answered without error, the second call
  succeeds after its two reads, without an insert and with the tables as they were. In
  general, when a profile row exists for the identity, the join code is that of an
  organization and the two reads of the call (the organization lookup and the query for the
  profile row) are answered without error, the call returns success, sends no insert and
  leaves the tables as they are.
\<close>

theorem provisioning_idempotent:
  "(\<exists>rows. users (snd (createUserProfileFromOAuth (Some u) jc' role'
                         (snd (createUserProfileFromOAuth (Some u) jc role w))))
             = users w @ rows
           \<and> length rows \<le> 1 \<and> (\<forall>r\<in>set rows. row_id r = user_id u))
   \<and> (fst (createUserProfileFromOAuth (Some u) jc role w) = None
        \<and> reads_answered (trim jc) (user_id u)
              (snd (createUserProfileFromOAuth (Some u) jc role w))
       \<longrightarrow> (let w1 = snd (createUserProfileFromOAuth (Some u) jc role w)
            in fst (createUserProfileFromOAuth (Some u) jc role' w1) = None
               \<and> users (snd (createUserProfileFromOAuth (Some u) jc role' w1)) = users w1
               \<and> organizations (snd (createUserProfileFromOAuth (Some u) jc role' w1))
                    = organizations w1
               \<and> calls (snd (createUserProfileFromOAuth (Some u) jc role' w1))
                    = calls w1 @ [SelectOrg (trim jc), SelectUserId (user_id u)]))
   \<and> (user_id u \<noteq> [] \<and> trim jc \<noteq> []
        \<and> find (\<lambda>org. join_code org = trim jc) (organizations w) \<noteq> None
        \<and> user_id u \<in> set (map row_id (users w))
        \<and> reads_answered (trim jc) (user_id u) w
       \<longrightarrow> fst (createUserProfileFromOAuth (Some u) jc role w) = None
           \<and> users (snd (createUserProfileFromOAuth (Some u) jc role w)) = users w
           \<and> organizations (snd (createUserProfileFromOAuth (Some u) jc role w))
                = organizations w
           \<and> calls (snd (createUserProfileFromOAuth (Some u) jc role w))
                = calls w @ [SelectOrg (trim jc), SelectUserId (user_id u)])"
proof (intro conjI impI)
  show "\<exists>rows. users (snd (createUserProfileFromOAuth (Some u) jc' role'
                         (snd (createUserProfileFromOAuth (Some u) jc role w))))
             = users w @ rows
           \<and> length rows \<le> 1 \<and> (\<forall>r\<in>set rows. row_id r = user_id u)"
    by (rule createUserProfileFromOAuth_twice [OF refl refl])
next
  assume a: "fst (createUserProfileFromOAuth (Some u) jc role w) = None
        \<and> reads_answered (trim jc) (user_id u)
              (snd (createUserProfileFromOAuth (Some u) jc role w))"
  define w1 where "w1 = snd (createUserProfileFromOAuth (Some u) jc role w)"
  note e = createUserProfileFromOAuth_effect [of "Some u" jc role w, folded w1_def]
  have valid: "user_id u \<noteq> []" "trim jc \<noteq> []"
    "find (\<lambda>org. join_code org = trim jc) (organizations w1) \<noteq> None"
    using createUserProfileFromOAuth_success [of u jc role w] a e by simp_all
  have row: "user_id u \<in> set (map row_id (users w1))" using e a by auto
  have f: "reads_answered (trim jc) (user_id u) w1" using a by (simp add: w1_def)
  from createUserProfileFromOAuth_existing [OF valid row f, of role']
  show "let w1 = snd (createUserProfileFromOAuth (Some u) jc role w)
            in fst (createUserProfileFromOAuth (Some u) jc role' w1) = None
               \<and> users (snd (createUserProfileFromOAuth (Some u) jc role' w1)) = users w1
               \<and> organizations (snd (createUserProfileFromOAuth (Some u) jc role' w1))
                    = organizations w1
               \<and> calls (snd (createUserProfileFromOAuth (Some u) jc role' w1))
                    = calls w1 @ [SelectOrg (trim jc), SelectUserId (user_id u)]"
    by (simp add: Let_def w1_def [symmetric])
next
  assume "user_id u \<noteq> [] \<and> trim jc \<noteq> []
        \<and> find (\<lambda>org. join_code org = trim jc) (organizations w) \<noteq> None
        \<and> user_id u \<in> set (map row_id (users w))
        \<and> reads_answered (trim jc) (user_id u) w"
  then have h: "user_id u \<noteq> []" "trim jc \<noteq> []"
    "find (\<lambda>org. join_code org = trim jc) (organizations w) \<noteq> None"
    "user_id u \<in> set (map row_id (users w))" "reads_answered (trim jc) (user_id u) w"
    by blast+
  note r = createUserProfileFromOAuth_existing [OF h, of role]
  show "fst (createUserProfileFromOAuth (Some u) jc role w) = None" by (rule r(1))
  show "users (snd (createUserProfileFromOAuth (Some u) jc role w)) = users w" by (rule r(2))
  show "organizations (snd (createUserProfileFromOAuth (Some u) jc role w)) = organizations w"
    by (rule r(3))
  show "calls (snd (createUserProfileFromOAuth (Some u) jc role w))
                = calls w @ [SelectOrg (trim jc), SelectUserId (user_id u)]"
    by (rule r(4))
qed

theorem provisioning_idempotent_witness:
  "createUserProfileFromOAuth (Some new_member) ''ACME-2024'' (Some ''member'') acme_backend
     = (None, acme_backend\<lparr>users := [new_member_row],
                calls := [SelectOrg ''ACME-2024'', SelectUserId ''u1'',
                          InsertUser new_member_row]\<rparr>)
   \<and> reads_answered (trim ''ACME-2024'') (user_id new_member)
        (acme_backend\<lparr>users := [new_member_row],
                calls := [SelectOrg ''ACME-2024'', SelectUserId ''u1'',
                          InsertUser new_member_row]\<rparr>)
   \<and> user_id new_member \<noteq> [] \<and> trim ''ACME-2024'' \<noteq> []
   \<and> find (\<lambda>org. join_code org = trim ''ACME-2024'')
        (organizations (acme_backend\<lparr>users := [new_member_row]\<rparr>)) \<noteq> None
   \<and> user_id new_member \<in> set (map row_id (users (acme_backend\<lparr>users := [new_member_row]\<rparr>)))
   \<and> reads_answered (trim ''ACME-2024'') (user_id new_member)
        (acme_backend\<lparr>users := [new_member_row]\<rparr>)
   \<and> fst (createUserProfileFromOAuth (Some new_member) ''ACME-2024'' (Some ''member'')
             (snd (createUserProfileFromOAuth (Some new_member) ''ACME-2024'' (Some ''member'')
                     acme_backend))) = None
   \<and> users (snd (createUserProfileFromOAuth (Some new_member) ''ACME-2024'' (Some ''member'')
             (snd (createUserProfileFromOAuth (Some new_member) ''ACME-2024'' (Some ''member'')
                     acme_backend)))) = [new_member_row]
   \<and> users (snd (createUserProfileFromOAuth (Some new_member) ''ACME-2024'' (Some ''member'')
                    (acme_backend\<lparr>users := [new_member_row]\<rparr>))) = [new_member_row]
   \<and> calls (snd (createUserProfileFromOAuth (Some new_member) ''ACME-2024'' (Some ''member'')
                    (acme_backend\<lparr>users := [new_member_row]\<rparr>)))
       = [SelectOrg ''ACME-2024'', SelectUserId ''u1'']"
proof -
  let ?w1 = "acme_backend\<lparr>users := [new_member_row],
                calls := [SelectOrg ''ACME-2024'', SelectUserId ''u1'',
                          InsertUser new_member_row]\<rparr>"
  let ?we = "acme_backend\<lparr>users := [new_member_row]\<rparr>"
  have first: "createUserProfileFromOAuth (Some new_member) ''ACME-2024'' (Some ''member'')
                 acme_backend = (None, ?w1)"
    by (simp add: provisioning_eval new_member_row_def)
  have tr: "trim ''ACME-2024'' = ''ACME-2024''" by (simp add: trim_def is_space_def)
  have f1: "reads_answered (trim ''ACME-2024'') (user_id new_member) ?w1"
    by (simp add: tr reads_answered_def provisioning_eval new_member_row_def)
  have h: "user_id new_member \<noteq> []" "trim ''ACME-2024'' \<noteq> []"
    "find (\<lambda>org. join_code org = trim ''ACME-2024'') (organizations ?we) \<noteq> None"
    "user_id new_member \<in> set (map row_id (users ?we))"
    by (simp_all add: tr new_member_def new_member_row_def acme_backend_def empty_backend_def)
  have h5: "reads_answered (trim ''ACME-2024'') (user_id new_member) ?we"
    by (simp add: tr reads_answered_def provisioning_eval new_member_row_def)
  note t1 = provisioning_idempotent [where u = new_member and jc = "''ACME-2024''"
              and role = "Some ''member''" and w = acme_backend and jc' = "''ACME-2024''"
              and role' = "Some ''member''"]
  note t2 = provisioning_idempotent [where u = new_member and jc = "''ACME-2024''"
              and role = "Some ''member''" and w = ?we and jc' = "''ACME-2024''"
              and role' = "Some ''member''"]
  have second: "fst (createUserProfileFromOAuth (Some new_member) ''ACME-2024'' (Some ''member'')
             (snd (createUserProfileFromOAuth (Some new_member) ''ACME-2024'' (Some ''member'')
                     acme_backend))) = None"
    "users (snd (createUserProfileFromOAuth (Some new_member) ''ACME-2024'' (Some ''member'')
             (snd (createUserProfileFromOAuth (Some new_member) ''ACME-2024'' (Some ''member'')
                     acme_backend)))) = [new_member_row]"
    using t1 first f1 by (simp_all add: Let_def)
  have existing: "users (snd (createUserProfileFromOAuth (Some new_member) ''ACME-2024''
                     (Some ''member'') ?we)) = [new_member_row]"
    "calls (snd (createUserProfileFromOAuth (Some new_member) ''ACME-2024''
                     (Some ''member'') ?we)) = [SelectOrg ''ACME-2024'', SelectUserId ''u1'']"
    using t2 h h5 by (simp_all add: tr new_member_def acme_backend_def empty_backend_def)
  show ?thesis using first f1 h h5 second existing by simp
qed

text \<open>
  Claim C6 as it is written fails: a profile row exists for the identity and the join code is
  that of an organization, and the call does not return success. When the organization
  lookup is not answered before its timer fires, the call returns an error after that one
  read. When the query for the profile row is answered with an error, the call goes on to
  the insert, which the table refuses three times, and returns the error of the last
  refusal. The table is as before in both cases.
\<close>

theorem provisioning_existing_row_counterexample:
  "user_id new_member \<in> set (map row_id (users slow_lookup_backend))
   \<and> find (\<lambda>org. join_code org = trim ''ACME-2024'') (organizations slow_lookup_backend)
       \<noteq> None
   \<and> fst (createUserProfileFromOAuth (Some new_member) ''ACME-2024'' (Some ''member'')
            slow_lookup_backend) = Some ''An unexpected error occurred''
   \<and> calls (snd (createUserProfileFromOAuth (Some new_member) ''ACME-2024'' (Some ''member'')
                   slow_lookup_backend)) = [SelectOrg ''ACME-2024'']
   \<and> user_id new_member \<in> set (map row_id (users failed_query_backend))
   \<and> find (\<lambda>org. join_code org = trim ''ACME-2024'') (organizations failed_query_backend)
       \<noteq> None
   \<and> fst (createUserProfileFromOAuth (Some new_member) ''ACME-2024'' (Some ''member'')
            failed_query_backend) = Some ''This email is already registered.''
   \<and> calls (snd (createUserProfileFromOAuth (Some new_member) ''ACME-2024'' (Some ''member'')
                   failed_query_backend))
       = [SelectOrg ''ACME-2024'', SelectUserId ''u1'', InsertUser new_member_row, Sleep 1000,
          InsertUser new_member_row, Sleep 1000, InsertUser new_member_row]
   \<and> users (snd (createUserProfileFromOAuth (Some new_member) ''ACME-2024'' (Some ''member'')
                   failed_query_backend)) = [new_member_row]"
  by (simp add: provisioning_eval slow_lookup_backend_def failed_query_backend_def
        new_member_row_def handleDatabaseError_def sleep_def timer_fires_def)

end
